theory Spec2Isabelle
  imports Complex_Main "HOL-Library.Multiset"
begin

section \<open>Jigsaw puzzle: the model of script.js\<close>

text \<open>
  The program keeps its state in the document: the tray element and the slot elements hold
  the piece elements as children, and \<^verbatim>\<open>puzzleState\<close> refers to them. The embedding makes
  that store explicit. A piece element is named by its index in \<^verbatim>\<open>puzzleState.pieces\<close>; the
  tray and every slot carry the list of their children in document order. IEEE doubles are
  read as real numbers (no value in the program is NaN or infinite for natural image
  dimensions). Audio cues and the drag-over decoration of \<^verbatim>\<open>dragenter\<close>/\<^verbatim>\<open>dragleave\<close>
  change none of the modelled fields.
\<close>

subsection \<open>Constants\<close>

definition BOARD_DIMENSION :: real where
  "BOARD_DIMENSION = 300"

definition MIN_BOARD_SIZE :: int where
  "MIN_BOARD_SIZE = 2"

definition MAX_BOARD_SIZE :: int where
  "MAX_BOARD_SIZE = 7"

definition TARGET_PIXELS_PER_PIECE :: real where
  "TARGET_PIXELS_PER_PIECE = 35000"

definition IMAGE_PATH :: string where
  "IMAGE_PATH = ''image.png''"

subsection \<open>Grid sizing\<close>

record image =
  naturalWidth :: nat
  naturalHeight :: nat
  src :: string

text \<open>\<^verbatim>\<open>Math.round\<close> rounds to the nearest integer, a tie going up.\<close>

definition Math_round :: "real \<Rightarrow> int" where
  "Math_round x = \<lfloor>x + 1 / 2\<rfloor>"

definition clamp :: "int \<Rightarrow> int \<Rightarrow> int \<Rightarrow> int" where
  "clamp v lo hi = min (max v lo) hi"

text \<open>The local \<^verbatim>\<open>boosted\<close> of \<^verbatim>\<open>computeBoardSize\<close>.\<close>

definition boosted :: "image \<Rightarrow> real" where
  "boosted im =
     (let pixelCount = real (naturalWidth im * naturalHeight im);
          base = sqrt (pixelCount / TARGET_PIXELS_PER_PIECE)
      in base * (115 / 100))"

text \<open>\<^verbatim>\<open>approximatePiecesPerSide || MIN_BOARD_SIZE\<close>: zero is falsy.\<close>

definition computeBoardSize :: "image \<Rightarrow> int" where
  "computeBoardSize im =
     (let approximatePiecesPerSide = Math_round (boosted im)
      in clamp (if approximatePiecesPerSide = 0 then MIN_BOARD_SIZE
                else approximatePiecesPerSide)
           MIN_BOARD_SIZE MAX_BOARD_SIZE)"

subsection \<open>Strings of numbers\<close>

definition digit_char :: "nat \<Rightarrow> char" where
  "digit_char d = ''0123456789'' ! d"

text \<open>\<^verbatim>\<open>String(n)\<close> for a natural number: its decimal digits, no leading zero.\<close>

fun String_js :: "nat \<Rightarrow> string" where
  "String_js n =
     (if n < 10 then [digit_char n] else String_js (n div 10) @ [digit_char (n mod 10)])"

declare String_js.simps [simp del]

subsection \<open>The document store\<close>

type_synonym node = nat

text \<open>The source rectangle that \<^verbatim>\<open>drawImage\<close> copies into a piece canvas.\<close>

record texture =
  sx :: real
  sy :: real
  sWidth :: real
  sHeight :: real

datatype piece_style = Unstyled | TrayStyles | SlotStyles

record piece =
  pieceId :: string
  correctSlot :: "string option"
  placedSlot :: "string option"
  backgroundImage :: "texture option"
  style :: piece_style

record slot =
  slotId :: string
  children :: "node list"
  filled :: bool
  drag_over :: bool

record puzzle =
  tray :: "node list"
  slots :: "slot list"
  pieces :: "piece list"
  boardSize :: nat
  pieceSize :: real
  trayPieceSize :: real
  statusNode :: "string option"

datatype parent = TrayElement | SlotElement nat

datatype js_value = Undefined

text \<open>A drop event: the slot the listener is registered on, and the dragged text.\<close>

record drop_event =
  currentTarget :: nat
  dataTransfer :: string

fun slotIndexOf :: "slot list \<Rightarrow> node \<Rightarrow> nat option" where
  "slotIndexOf [] p = None"
| "slotIndexOf (sl # sls) p =
     (if p \<in> set (children sl) then Some 0 else map_option Suc (slotIndexOf sls p))"

definition parentElement :: "puzzle \<Rightarrow> node \<Rightarrow> parent option" where
  "parentElement s p =
     (if p \<in> set (tray s) then Some TrayElement
      else map_option SlotElement (slotIndexOf (slots s) p))"

definition updSlot :: "nat \<Rightarrow> (slot \<Rightarrow> slot) \<Rightarrow> puzzle \<Rightarrow> puzzle" where
  "updSlot k f s = s\<lparr>slots := (slots s)[k := f (slots s ! k)]\<rparr>"

definition updPiece :: "node \<Rightarrow> (piece \<Rightarrow> piece) \<Rightarrow> puzzle \<Rightarrow> puzzle" where
  "updPiece p f s = s\<lparr>pieces := (pieces s)[p := f (pieces s ! p)]\<rparr>"

text \<open>A node that is appended leaves its parent first, then becomes the last child.\<close>

definition removeFromParent :: "node \<Rightarrow> puzzle \<Rightarrow> puzzle" where
  "removeFromParent p s =
     (case parentElement s p of
        None \<Rightarrow> s
      | Some TrayElement \<Rightarrow> s\<lparr>tray := remove1 p (tray s)\<rparr>
      | Some (SlotElement k) \<Rightarrow> updSlot k (\<lambda>sl. sl\<lparr>children := remove1 p (children sl)\<rparr>) s)"

definition appendChild :: "parent \<Rightarrow> node \<Rightarrow> puzzle \<Rightarrow> puzzle" where
  "appendChild tgt p s =
     (let s1 = removeFromParent p s
      in case tgt of
           TrayElement \<Rightarrow> s1\<lparr>tray := tray s1 @ [p]\<rparr>
         | SlotElement k \<Rightarrow> updSlot k (\<lambda>sl. sl\<lparr>children := children sl @ [p]\<rparr>) s1)"

text \<open>\<^verbatim>\<open>slot.querySelector('.puzzle-piece')\<close>: the first piece below the slot.\<close>

definition querySelector :: "slot \<Rightarrow> node option" where
  "querySelector sl = (case children sl of [] \<Rightarrow> None | p # _ \<Rightarrow> Some p)"

text \<open>\<^verbatim>\<open>pieces.find(p => p.dataset.pieceId === pieceId)\<close>, as the index of the piece found.\<close>

fun findPiece :: "piece list \<Rightarrow> string \<Rightarrow> node option" where
  "findPiece [] i = None"
| "findPiece (p # ps) i =
     (if pieceId p = i then Some 0 else map_option Suc (findPiece ps i))"

subsection \<open>Building the board and the pieces\<close>

definition sliceScene :: "nat \<Rightarrow> real \<Rightarrow> texture list" where
  "sliceScene bs psz =
     concat (map (\<lambda>row. map (\<lambda>col.
        \<lparr>sx = real col * psz, sy = real row * psz, sWidth = psz, sHeight = psz\<rparr>)
        [0..<bs]) [0..<bs])"

definition rebuildBoard :: "nat \<Rightarrow> slot list" where
  "rebuildBoard bs =
     map (\<lambda>i. \<lparr>slotId = String_js (i + 1), children = [], filled = False, drag_over = False\<rparr>)
       [0..<bs * bs]"

definition rebuildTray :: "nat \<Rightarrow> piece list" where
  "rebuildTray totalPieces =
     map (\<lambda>i. \<lparr>pieceId = String_js (i + 1), correctSlot = None, placedSlot = None,
                backgroundImage = None, style = Unstyled\<rparr>)
       [0..<totalPieces]"

definition applyTrayStyles :: "node \<Rightarrow> puzzle \<Rightarrow> puzzle" where
  "applyTrayStyles p s = updPiece p (\<lambda>pc. pc\<lparr>style := TrayStyles\<rparr>) s"

definition applySlotStyles :: "node \<Rightarrow> puzzle \<Rightarrow> puzzle" where
  "applySlotStyles p s = updPiece p (\<lambda>pc. pc\<lparr>style := SlotStyles\<rparr>) s"

text \<open>\<^verbatim>\<open>textures[index]\<close> past the end of the array is undefined: no texture.\<close>

definition hydratePieces :: "texture list \<Rightarrow> puzzle \<Rightarrow> puzzle" where
  "hydratePieces textures s =
     s\<lparr>pieces := map (\<lambda>(index, pc).
          pc\<lparr>backgroundImage :=
                 (if index < length textures then Some (textures ! index) else None),
              correctSlot := Some (String_js (index + 1)),
              style := TrayStyles\<rparr>)
        (enumerate 0 (pieces s))\<rparr>"

subsection \<open>Status line\<close>

definition msgPlaced :: string where
  "msgPlaced = ''Piece placed on the board.''"

definition msgReturned :: string where
  "msgReturned = ''Piece returned to the tray.''"

definition msgShuffled :: string where
  "msgShuffled = ''Pieces shuffled. Start solving!''"

definition msgCompleted :: string where
  "msgCompleted = ''Puzzle completed! Great work!''"

definition msgSoClose :: string where
  "msgSoClose = ''So close! Some pieces need to be swapped.''"

text \<open>The multiplication sign of the load message, as its two UTF-8 bytes.\<close>

definition msgLoaded :: "image \<Rightarrow> string" where
  "msgLoaded im =
     ''Image loaded from '' @ IMAGE_PATH @ '' ('' @ String_js (naturalWidth im)
       @ [CHR 0xC3, CHR 0x97] @ String_js (naturalHeight im)
       @ ''). Drag pieces to solve!''"

definition setStatus :: "string \<Rightarrow> puzzle \<Rightarrow> puzzle" where
  "setStatus message s =
     (case statusNode s of None \<Rightarrow> s | Some _ \<Rightarrow> s\<lparr>statusNode := Some message\<rparr>)"

subsection \<open>Moving pieces\<close>

text \<open>
  The functions below work on the record behind \<^verbatim>\<open>puzzleState\<close>. Their callers have
  found \<^verbatim>\<open>puzzleState\<close> set before they call them, so the guard
  \<^verbatim>\<open>if (!puzzleState) return\<close> that some of them repeat never fires; it is decided once, in
  the handlers and in \<^verbatim>\<open>shufflePieces\<close>.
\<close>

definition movePieceToTray :: "node \<Rightarrow> puzzle \<Rightarrow> puzzle" where
  "movePieceToTray p s =
     (let s1 = (case parentElement s p of
                  Some (SlotElement k) \<Rightarrow>
                    updSlot k (\<lambda>sl. sl\<lparr>filled := False, drag_over := False\<rparr>) s
                | _ \<Rightarrow> s);
          s2 = appendChild TrayElement p s1;
          s3 = applyTrayStyles p s2
      in updPiece p (\<lambda>pc. pc\<lparr>placedSlot := Some []\<rparr>) s3)"

definition placePieceInSlot :: "node \<Rightarrow> nat \<Rightarrow> puzzle \<Rightarrow> puzzle" where
  "placePieceInSlot p k s =
     (let s1 = (case parentElement s p of
                  Some (SlotElement j) \<Rightarrow> updSlot j (\<lambda>sl. sl\<lparr>filled := False\<rparr>) s
                | _ \<Rightarrow> s);
          s2 = appendChild (SlotElement k) p s1;
          s3 = updSlot k (\<lambda>sl. sl\<lparr>filled := True\<rparr>) s2;
          s4 = applySlotStyles p s3
      in updPiece p (\<lambda>pc. pc\<lparr>placedSlot := Some (slotId (slots s4 ! k))\<rparr>) s4)"

definition checkCompletion :: "puzzle \<Rightarrow> puzzle" where
  "checkCompletion s =
     (let allFilled = list_all (\<lambda>sl. querySelector sl \<noteq> None) (slots s);
          allCorrect = list_all (\<lambda>sl.
             case querySelector sl of
               None \<Rightarrow> False
             | Some p \<Rightarrow> correctSlot (pieces s ! p) = Some (slotId sl)) (slots s)
      in if allCorrect \<and> allFilled then setStatus msgCompleted s
         else if allFilled then setStatus msgSoClose s
         else s)"

text \<open>
  What \<^verbatim>\<open>checkCompletion\<close> leaves in the status line when the line read \<open>m\<close> before
  the call.
\<close>

definition verdict :: "string \<Rightarrow> puzzle \<Rightarrow> string" where
  "verdict m t =
     (let allFilled = list_all (\<lambda>sl. querySelector sl \<noteq> None) (slots t);
          allCorrect = list_all (\<lambda>sl.
             case querySelector sl of
               None \<Rightarrow> False
             | Some p \<Rightarrow> correctSlot (pieces t ! p) = Some (slotId sl)) (slots t)
      in if allCorrect \<and> allFilled then msgCompleted
         else if allFilled then msgSoClose else m)"

text \<open>
  The handlers act on \<^verbatim>\<open>puzzleState\<close>, which is null (\<open>None\<close>) until the image has
  loaded. Every path of a handler ends in a bare \<^verbatim>\<open>return\<close> or falls off the end: the
  value returned is \<^verbatim>\<open>undefined\<close>. \<^verbatim>\<open>event.preventDefault()\<close>, which both handlers call
  first on every path, touches no field of the model.
\<close>

definition handleDropOnSlot :: "drop_event \<Rightarrow> puzzle option \<Rightarrow> js_value \<times> puzzle option" where
  "handleDropOnSlot event puzzleState =
     (case puzzleState of
        None \<Rightarrow> (Undefined, None)
      | Some s \<Rightarrow>
          (case findPiece (pieces s) (dataTransfer event) of
             None \<Rightarrow> (Undefined, Some s)
           | Some p \<Rightarrow>
               (let k = currentTarget event;
                    s1 = (case querySelector (slots s ! k) of
                            None \<Rightarrow> s
                          | Some occupyingPiece \<Rightarrow>
                              if occupyingPiece \<noteq> p then movePieceToTray occupyingPiece s
                              else s);
                    s2 = placePieceInSlot p k s1;
                    s3 = updSlot k (\<lambda>sl. sl\<lparr>drag_over := False\<rparr>) s2;
                    s4 = setStatus msgPlaced s3
                in (Undefined, Some (checkCompletion s4)))))"

definition handleDropOnTray :: "drop_event \<Rightarrow> puzzle option \<Rightarrow> js_value \<times> puzzle option" where
  "handleDropOnTray event puzzleState =
     (case puzzleState of
        None \<Rightarrow> (Undefined, None)
      | Some s \<Rightarrow>
          (case findPiece (pieces s) (dataTransfer event) of
             None \<Rightarrow> (Undefined, Some s)
           | Some p \<Rightarrow>
               (let s1 = movePieceToTray p s;
                    s2 = setStatus msgReturned s1
                in (Undefined, Some (checkCompletion s2)))))"

subsection \<open>Shuffling\<close>

text \<open>
  \<open>rnd i\<close> is the value \<^verbatim>\<open>Math.random()\<close> returns in the iteration with index \<open>i\<close>.
  The loop runs for \<open>i\<close> from the last index down to 1, and the destructuring swap reads
  both elements before it writes.
\<close>

fun fisherYates :: "(nat \<Rightarrow> real) \<Rightarrow> nat \<Rightarrow> node list \<Rightarrow> node list" where
  "fisherYates rnd 0 shuffled = shuffled"
| "fisherYates rnd (Suc i) shuffled =
     (let j = nat \<lfloor>rnd (Suc i) * real (Suc i + 1)\<rfloor>
      in fisherYates rnd i (shuffled[Suc i := shuffled ! j, j := shuffled ! Suc i]))"

definition clearSlot :: "nat \<Rightarrow> puzzle \<Rightarrow> puzzle" where
  "clearSlot k s =
     (let s1 = (case querySelector (slots s ! k) of
                  None \<Rightarrow> s
                | Some occupant \<Rightarrow> movePieceToTray occupant s)
      in updSlot k (\<lambda>sl. sl\<lparr>filled := False, drag_over := False\<rparr>) s1)"

definition shufflePieces :: "(nat \<Rightarrow> real) \<Rightarrow> puzzle option \<Rightarrow> puzzle option" where
  "shufflePieces rnd puzzleState =
     (case puzzleState of
        None \<Rightarrow> None
      | Some s \<Rightarrow>
          (let s1 = fold clearSlot [0..<length (slots s)] s;
               shuffled = fisherYates rnd (length (pieces s1) - 1) [0..<length (pieces s1)];
               s2 = fold (\<lambda>p t. applyTrayStyles p (appendChild TrayElement p t)) shuffled s1
           in Some (setStatus msgShuffled s2)))"

subsection \<open>Start-up\<close>

text \<open>
  \<open>panelStatus\<close> is the text of the status node that \<^verbatim>\<open>injectHelperPanel\<close> returns
  (\<open>None\<close> when an existing panel has none); the image is \<open>None\<close> when loading fails, and
  \<^verbatim>\<open>puzzleState\<close> then stays null. The status messages written while \<^verbatim>\<open>puzzleState\<close> is
  null are dropped by \<^verbatim>\<open>setStatus\<close>.
\<close>

definition initPuzzle :: "string option \<Rightarrow> image option \<Rightarrow> (nat \<Rightarrow> real) \<Rightarrow> puzzle option" where
  "initPuzzle panelStatus loaded rnd =
     (case loaded of
        None \<Rightarrow> None
      | Some sourceImage \<Rightarrow>
          (let bs = nat (computeBoardSize sourceImage);
               totalPieces = bs * bs;
               psz = BOARD_DIMENSION / real bs;
               tps = max 40 (min (psz - 8) 80);
               s0 = \<lparr>tray = [0..<totalPieces], slots = rebuildBoard bs,
                     pieces = rebuildTray totalPieces, boardSize = bs, pieceSize = psz,
                     trayPieceSize = tps, statusNode = panelStatus\<rparr>;
               s1 = hydratePieces (sliceScene bs psz) s0
           in map_option (setStatus (msgLoaded sourceImage)) (shufflePieces rnd (Some s1))))"

subsection \<open>Where the pieces are\<close>

text \<open>
  All piece nodes that are in the document, with multiplicity: the children of the tray and
  the children of every slot.
\<close>

definition located :: "puzzle \<Rightarrow> node multiset" where
  "located s = mset (tray s) + sum_list (map (\<lambda>sl. mset (children sl)) (slots s))"

text \<open>
  A well-formed store: the nodes in the document are exactly the pieces of
  \<^verbatim>\<open>puzzleState.pieces\<close>, each once, and a slot has at most one child.
\<close>

definition wellFormed :: "puzzle \<Rightarrow> bool" where
  "wellFormed s \<longleftrightarrow>
     located s = mset [0..<length (pieces s)] \<and>
     (\<forall>sl\<in>set (slots s). length (children sl) \<le> 1)"

subsection \<open>Sequences of operations\<close>

text \<open>
  The states the program can be in: the state after start-up, and the state after a drop on
  a slot, a drop on the tray or a shuffle in such a state. A slot listener exists only once
  \<^verbatim>\<open>puzzleState\<close> is set, and its slot is one of \<^verbatim>\<open>puzzleState.slots\<close>;
  \<^verbatim>\<open>Math.random()\<close> returns a number in \<open>[0, 1)\<close>.
\<close>

inductive reachable :: "puzzle option \<Rightarrow> bool" where
  start: "\<forall>i. 0 \<le> rnd i \<and> rnd i < 1 \<Longrightarrow> reachable (initPuzzle panelStatus loaded rnd)"
| placePiece: "reachable (Some s) \<Longrightarrow> currentTarget event < length (slots s)
     \<Longrightarrow> reachable (snd (handleDropOnSlot event (Some s)))"
| returnToHolding: "reachable puzzleState \<Longrightarrow> reachable (snd (handleDropOnTray event puzzleState))"
| shuffle: "reachable puzzleState \<Longrightarrow> \<forall>i. 0 \<le> rnd i \<and> rnd i < 1
     \<Longrightarrow> reachable (shufflePieces rnd puzzleState)"

subsection \<open>Example states\<close>

text \<open>
  A 100 by 100 image gives a 2 by 2 board. \<open>exampleStart\<close> is the state after start-up
  when every call of \<^verbatim>\<open>Math.random()\<close> returns 0; in \<open>examplePlaced\<close> piece 1 has then
  been dropped on cell 3; in \<open>exampleSolved\<close> every piece lies on its own cell, and in
  \<open>exampleSwapped\<close> pieces 1 and 2 have changed places.
\<close>

definition exampleImage :: image where
  "exampleImage = \<lparr>naturalWidth = 100, naturalHeight = 100, src = ''image.png''\<rparr>"

definition examplePieces :: "piece list" where
  "examplePieces =
     [\<lparr>pieceId = ''1'', correctSlot = Some ''1'', placedSlot = None,
        backgroundImage = Some \<lparr>sx = 0, sy = 0, sWidth = 150, sHeight = 150\<rparr>,
        style = TrayStyles\<rparr>,
      \<lparr>pieceId = ''2'', correctSlot = Some ''2'', placedSlot = None,
        backgroundImage = Some \<lparr>sx = 150, sy = 0, sWidth = 150, sHeight = 150\<rparr>,
        style = TrayStyles\<rparr>,
      \<lparr>pieceId = ''3'', correctSlot = Some ''3'', placedSlot = None,
        backgroundImage = Some \<lparr>sx = 0, sy = 150, sWidth = 150, sHeight = 150\<rparr>,
        style = TrayStyles\<rparr>,
      \<lparr>pieceId = ''4'', correctSlot = Some ''4'', placedSlot = None,
        backgroundImage = Some \<lparr>sx = 150, sy = 150, sWidth = 150, sHeight = 150\<rparr>,
        style = TrayStyles\<rparr>]"

definition exampleStart :: puzzle where
  "exampleStart =
     \<lparr>tray = [1, 2, 3, 0],
      slots = [\<lparr>slotId = ''1'', children = [], filled = False, drag_over = False\<rparr>,
               \<lparr>slotId = ''2'', children = [], filled = False, drag_over = False\<rparr>,
               \<lparr>slotId = ''3'', children = [], filled = False, drag_over = False\<rparr>,
               \<lparr>slotId = ''4'', children = [], filled = False, drag_over = False\<rparr>],
      pieces = examplePieces,
      boardSize = 2, pieceSize = 150, trayPieceSize = 80,
      statusNode = Some (msgLoaded exampleImage)\<rparr>"

definition examplePlaced :: puzzle where
  "examplePlaced =
     exampleStart\<lparr>tray := [1, 2, 3],
       slots := [\<lparr>slotId = ''1'', children = [], filled = False, drag_over = False\<rparr>,
                 \<lparr>slotId = ''2'', children = [], filled = False, drag_over = False\<rparr>,
                 \<lparr>slotId = ''3'', children = [0], filled = True, drag_over = False\<rparr>,
                 \<lparr>slotId = ''4'', children = [], filled = False, drag_over = False\<rparr>],
       pieces := examplePieces[0 := (examplePieces ! 0)\<lparr>placedSlot := Some ''3'',
                                                         style := SlotStyles\<rparr>],
       statusNode := Some msgPlaced\<rparr>"

definition exampleSolved :: puzzle where
  "exampleSolved =
     exampleStart\<lparr>tray := [],
       slots := [\<lparr>slotId = ''1'', children = [0], filled = True, drag_over = False\<rparr>,
                 \<lparr>slotId = ''2'', children = [1], filled = True, drag_over = False\<rparr>,
                 \<lparr>slotId = ''3'', children = [2], filled = True, drag_over = False\<rparr>,
                 \<lparr>slotId = ''4'', children = [3], filled = True, drag_over = False\<rparr>],
       statusNode := Some msgPlaced\<rparr>"

definition exampleSwapped :: puzzle where
  "exampleSwapped =
     exampleStart\<lparr>tray := [],
       slots := [\<lparr>slotId = ''1'', children = [1], filled = True, drag_over = False\<rparr>,
                 \<lparr>slotId = ''2'', children = [0], filled = True, drag_over = False\<rparr>,
                 \<lparr>slotId = ''3'', children = [2], filled = True, drag_over = False\<rparr>,
                 \<lparr>slotId = ''4'', children = [3], filled = True, drag_over = False\<rparr>],
       statusNode := Some msgPlaced\<rparr>"

section \<open>Grid sizing\<close>

lemma boosted_sq: "(boosted im)\<^sup>2 = real (naturalWidth im * naturalHeight im) * 529 / 14000000"
  by (simp add: boosted_def TARGET_PIXELS_PER_PIECE_def Let_def power_mult_distrib power2_eq_square)

lemma boosted_nonneg: "0 \<le> boosted im"
  by (simp add: boosted_def TARGET_PIXELS_PER_PIECE_def Let_def)

lemma boosted_less_iff:
  assumes "0 \<le> c"
  shows "boosted im < c \<longleftrightarrow> real (naturalWidth im * naturalHeight im) * 529 / 14000000 < c\<^sup>2"
proof -
  have "boosted im < c \<longleftrightarrow> (boosted im)\<^sup>2 < c\<^sup>2"
    using assms boosted_nonneg [of im]
    by (metis power2_less_imp_less power_strict_mono pos2)
  then show ?thesis by (simp only: boosted_sq)
qed

lemma boosted_le_iff:
  assumes "0 \<le> c"
  shows "c \<le> boosted im \<longleftrightarrow> c\<^sup>2 \<le> real (naturalWidth im * naturalHeight im) * 529 / 14000000"
  using boosted_less_iff [OF assms, of im] by (simp add: not_less [symmetric])

lemma boosted_100_bounds:
  "6145 / 10000 < boosted \<lparr>naturalWidth = 100, naturalHeight = 100, src = p\<rparr>"
  "boosted \<lparr>naturalWidth = 100, naturalHeight = 100, src = p\<rparr> < 6155 / 10000"
proof -
  let ?im = "\<lparr>naturalWidth = 100, naturalHeight = 100, src = p\<rparr>"
  have "\<not> boosted ?im < 6146 / 10000"
    by (subst boosted_less_iff) (simp_all add: power2_eq_square)
  then show "6145 / 10000 < boosted ?im" by simp
  show "boosted ?im < 6155 / 10000"
    by (subst boosted_less_iff) (simp_all add: power2_eq_square)
qed

lemma Math_round_boosted_100:
  "Math_round (boosted \<lparr>naturalWidth = 100, naturalHeight = 100, src = p\<rparr>) = 1"
  unfolding Math_round_def
  using boosted_100_bounds [of p] by (intro floor_unique) simp_all

lemma boosted_2000: "7 < boosted \<lparr>naturalWidth = 2000, naturalHeight = 2000, src = p\<rparr>"
proof -
  have "\<not> boosted \<lparr>naturalWidth = 2000, naturalHeight = 2000, src = p\<rparr> < 8"
    by (subst boosted_less_iff) (simp_all add: power2_eq_square)
  then show ?thesis by simp
qed

text \<open>
  Claim C5. For an image of positive width and height the board size is a function of the
  two dimensions alone (two images of equal dimensions get the same size, whatever else
  differs; the computation reads no state), and it is an integer between 2 and 7.
\<close>

theorem computeBoardSize_pure_in_range:
  "0 < naturalWidth a \<Longrightarrow> 0 < naturalHeight a \<Longrightarrow>
     2 \<le> computeBoardSize a \<and> computeBoardSize a \<le> 7 \<and>
     (\<forall>b. naturalWidth b = naturalWidth a \<and> naturalHeight b = naturalHeight a
            \<longrightarrow> computeBoardSize b = computeBoardSize a)"
  by (simp add: computeBoardSize_def boosted_def clamp_def MIN_BOARD_SIZE_def
      MAX_BOARD_SIZE_def Let_def)

theorem computeBoardSize_pure_in_range_witness:
  "0 < naturalWidth \<lparr>naturalWidth = 100, naturalHeight = 100, src = ''image.png''\<rparr> \<and>
   0 < naturalHeight \<lparr>naturalWidth = 100, naturalHeight = 100, src = ''image.png''\<rparr> \<and>
   2 \<le> computeBoardSize \<lparr>naturalWidth = 100, naturalHeight = 100, src = ''image.png''\<rparr> \<and>
   computeBoardSize \<lparr>naturalWidth = 100, naturalHeight = 100, src = ''image.png''\<rparr> \<le> 7 \<and>
   computeBoardSize \<lparr>naturalWidth = 100, naturalHeight = 100, src = ''copy.png''\<rparr>
     = computeBoardSize \<lparr>naturalWidth = 100, naturalHeight = 100, src = ''image.png''\<rparr>"
proof -
  let ?a = "\<lparr>naturalWidth = 100, naturalHeight = 100, src = ''image.png''\<rparr>"
  let ?b = "\<lparr>naturalWidth = 100, naturalHeight = 100, src = ''copy.png''\<rparr>"
  have w: "0 < naturalWidth ?a" and h: "0 < naturalHeight ?a" by simp_all
  from computeBoardSize_pure_in_range [OF w h]
  have r: "2 \<le> computeBoardSize ?a" "computeBoardSize ?a \<le> 7"
    and d: "\<forall>b. naturalWidth b = naturalWidth ?a \<and> naturalHeight b = naturalHeight ?a
            \<longrightarrow> computeBoardSize b = computeBoardSize ?a"
    by blast+
  from d have "naturalWidth ?b = naturalWidth ?a \<and> naturalHeight ?b = naturalHeight ?a
            \<longrightarrow> computeBoardSize ?b = computeBoardSize ?a" by (rule spec)
  then have "computeBoardSize ?b = computeBoardSize ?a" by simp
  with w h r show ?thesis by (intro conjI)
qed

lemma computeBoardSize_low: "Math_round (boosted i) < 2 \<Longrightarrow> computeBoardSize i = 2"
  by (simp add: computeBoardSize_def clamp_def MIN_BOARD_SIZE_def MAX_BOARD_SIZE_def Let_def)

lemma computeBoardSize_high:
  assumes "7 < boosted i"
  shows "computeBoardSize i = 7"
proof -
  from assms have "7 \<le> Math_round (boosted i)"
    unfolding Math_round_def by (simp add: le_floor_iff)
  then show ?thesis
    by (simp add: computeBoardSize_def clamp_def MIN_BOARD_SIZE_def MAX_BOARD_SIZE_def Let_def)
qed

text \<open>
  Claim C9. The board size is clamped at both ends: when the boosted side rounds to less
  than 2 the result is 2, when the boosted side exceeds 7 the result is 7. For a 100 by 100
  image the boosted side is about 0.615, rounds to 1 and the result is 2.
\<close>

theorem computeBoardSize_clamps_both_ends:
  "(Math_round (boosted im) < 2 \<longrightarrow> computeBoardSize im = 2) \<and>
   (7 < boosted im \<longrightarrow> computeBoardSize im = 7) \<and>
   6145 / 10000 < boosted \<lparr>naturalWidth = 100, naturalHeight = 100, src = p\<rparr> \<and>
   boosted \<lparr>naturalWidth = 100, naturalHeight = 100, src = p\<rparr> < 6155 / 10000 \<and>
   Math_round (boosted \<lparr>naturalWidth = 100, naturalHeight = 100, src = p\<rparr>) = 1 \<and>
   computeBoardSize \<lparr>naturalWidth = 100, naturalHeight = 100, src = p\<rparr> = 2"
proof (intro conjI impI)
  show "computeBoardSize \<lparr>naturalWidth = 100, naturalHeight = 100, src = p\<rparr> = 2"
    by (rule computeBoardSize_low) (simp add: Math_round_boosted_100)
qed (fact computeBoardSize_low computeBoardSize_high boosted_100_bounds Math_round_boosted_100)+

theorem computeBoardSize_clamps_both_ends_witness:
  "Math_round (boosted \<lparr>naturalWidth = 100, naturalHeight = 100, src = ''image.png''\<rparr>) < 2 \<and>
   computeBoardSize \<lparr>naturalWidth = 100, naturalHeight = 100, src = ''image.png''\<rparr> = 2 \<and>
   7 < boosted \<lparr>naturalWidth = 2000, naturalHeight = 2000, src = ''image.png''\<rparr> \<and>
   computeBoardSize \<lparr>naturalWidth = 2000, naturalHeight = 2000, src = ''image.png''\<rparr> = 7"
proof -
  let ?small = "\<lparr>naturalWidth = 100, naturalHeight = 100, src = ''image.png''\<rparr>"
  let ?large = "\<lparr>naturalWidth = 2000, naturalHeight = 2000, src = ''image.png''\<rparr>"
  have s: "Math_round (boosted ?small) < 2"
    by (simp add: Math_round_boosted_100)
  have l: "7 < boosted ?large"
    by (rule boosted_2000)
  from computeBoardSize_clamps_both_ends [of ?small "''image.png''"] s
  have "computeBoardSize ?small = 2" by (elim conjE) (erule mp)
  moreover from computeBoardSize_clamps_both_ends [of ?large "''image.png''"] l
  have "computeBoardSize ?large = 7" by (elim conjE) (erule (1) mp)
  ultimately show ?thesis using s l by (intro conjI)
qed

section \<open>The document store\<close>

subsection \<open>Nodes and their parents\<close>

lemma sum_list_map_update:
  fixes g :: "'a \<Rightarrow> 'b::comm_monoid_add"
  shows "k < length xs \<Longrightarrow> sum_list (map g (xs[k := y])) + g (xs ! k) = sum_list (map g xs) + g y"
proof (induction xs arbitrary: k)
  case Nil
  then show ?case by simp
next
  case (Cons x xs)
  show ?case
  proof (cases k)
    case 0
    then show ?thesis by (simp add: ac_simps)
  next
    case (Suc j)
    with Cons.prems have "j < length xs" by simp
    from Cons.IH [OF this] Suc show ?thesis by (simp add: add.assoc)
  qed
qed

lemma slots_updSlot [simp]: "slots (updSlot k f s) = (slots s)[k := f (slots s ! k)]"
  and tray_updSlot [simp]: "tray (updSlot k f s) = tray s"
  and pieces_updSlot [simp]: "pieces (updSlot k f s) = pieces s"
  and statusNode_updSlot [simp]: "statusNode (updSlot k f s) = statusNode s"
  by (simp_all add: updSlot_def)

lemma slots_updPiece [simp]: "slots (updPiece p f s) = slots s"
  and tray_updPiece [simp]: "tray (updPiece p f s) = tray s"
  and pieces_updPiece [simp]: "pieces (updPiece p f s) = (pieces s)[p := f (pieces s ! p)]"
  and statusNode_updPiece [simp]: "statusNode (updPiece p f s) = statusNode s"
  by (simp_all add: updPiece_def)

lemma located_updPiece [simp]: "located (updPiece p f s) = located s"
  by (simp add: located_def)

lemma located_updSlot:
  assumes "k < length (slots s)"
  shows "located (updSlot k f s) + mset (children (slots s ! k))
       = located s + mset (children (f (slots s ! k)))"
  using sum_list_map_update [OF assms, of "\<lambda>sl. mset (children sl)" "f (slots s ! k)"]
  by (simp add: located_def add.assoc)

lemma located_updSlot_same:
  assumes "\<And>sl. children (f sl) = children sl"
  shows "located (updSlot k f s) = located s"
proof (cases "k < length (slots s)")
  case True
  from located_updSlot [OF True, of f] assms show ?thesis by simp
next
  case False
  then show ?thesis by (simp add: located_def list_update_beyond)
qed

lemma slotIndexOf_Some:
  "slotIndexOf sls p = Some k \<Longrightarrow> k < length sls \<and> p \<in> set (children (sls ! k))"
  by (induction sls arbitrary: k) (auto split: if_splits)

lemma slotIndexOf_None:
  "slotIndexOf sls p = None \<longleftrightarrow> (\<forall>sl\<in>set sls. p \<notin> set (children sl))"
  by (induction sls) auto

lemma count_sum_children_pos:
  "j < length sls \<Longrightarrow> p \<in> set (children (sls ! j))
     \<Longrightarrow> 1 \<le> count (sum_list (map (\<lambda>sl. mset (children sl)) sls)) p"
proof (induction sls arbitrary: j)
  case Nil
  then show ?case by simp
next
  case (Cons a sls)
  then show ?case
    by (cases j) (auto simp: Suc_le_eq intro: trans_less_add2)
qed

lemma slotIndexOf_unique:
  "k < length sls \<Longrightarrow> p \<in> set (children (sls ! k))
     \<Longrightarrow> count (sum_list (map (\<lambda>sl. mset (children sl)) sls)) p \<le> 1
     \<Longrightarrow> slotIndexOf sls p = Some k"
proof (induction sls arbitrary: k)
  case Nil
  then show ?case by simp
next
  case (Cons a sls)
  show ?case
  proof (cases k)
    case 0
    with Cons.prems show ?thesis by simp
  next
    case (Suc j)
    with Cons.prems have j: "j < length sls" "p \<in> set (children (sls ! j))" by simp_all
    from count_sum_children_pos [OF j]
    have pos: "1 \<le> count (sum_list (map (\<lambda>sl. mset (children sl)) sls)) p" .
    from Cons.prems(3)
    have "count (mset (children a)) p + count (sum_list (map (\<lambda>sl. mset (children sl)) sls)) p \<le> 1"
      by simp
    with pos have z: "count (mset (children a)) p = 0"
      and le: "count (sum_list (map (\<lambda>sl. mset (children sl)) sls)) p \<le> 1" by arith+
    from z have "p \<notin> set (children a)" by (simp add: count_eq_zero_iff)
    with Cons.IH [OF j le] Suc show ?thesis by (simp del: One_nat_def)
  qed
qed

lemma parentElement_None: "parentElement s p = None \<Longrightarrow> p \<notin># located s"
  by (auto simp: parentElement_def located_def slotIndexOf_None split: if_splits)

lemma located_removeFromParent: "located (removeFromParent p s) = located s - {#p#}"
proof (cases "parentElement s p")
  case None
  with parentElement_None [OF None] show ?thesis
    by (simp add: removeFromParent_def)
next
  case (Some par)
  show ?thesis
  proof (cases par)
    case TrayElement
    with Some have "p \<in> set (tray s)"
      by (auto simp: parentElement_def split: if_splits)
    with Some TrayElement show ?thesis
      by (simp add: removeFromParent_def located_def)
  next
    case (SlotElement k)
    with Some have "slotIndexOf (slots s) p = Some k"
      by (auto simp: parentElement_def split: if_splits)
    from slotIndexOf_Some [OF this]
    have k: "k < length (slots s)" and p: "p \<in> set (children (slots s ! k))" by simp_all
    let ?f = "\<lambda>sl. sl\<lparr>children := remove1 p (children sl)\<rparr>"
    from located_updSlot [OF k, of ?f]
    have "located (updSlot k ?f s) + mset (children (slots s ! k))
        = located s + (mset (children (slots s ! k)) - {#p#})" by simp
    also have "\<dots> = (located s - {#p#}) + mset (children (slots s ! k))"
    proof -
      from k p have "p \<in># located s" by (auto simp: located_def)
      with p show ?thesis by (simp add: add.commute)
    qed
    finally have "located (updSlot k ?f s) = located s - {#p#}" by simp
    with Some SlotElement show ?thesis by (simp add: removeFromParent_def)
  qed
qed


lemma slotIndexOf_cong:
  "map children sls = map children sls' \<Longrightarrow> slotIndexOf sls p = slotIndexOf sls' p"
proof (induction sls arbitrary: sls')
  case Nil
  then show ?case by simp
next
  case (Cons a sls)
  then obtain b sls'' where "sls' = b # sls''" by (cases sls') auto
  with Cons show ?case by auto
qed

lemma map_children_update_same:
  assumes "\<And>sl. children (f sl) = children sl"
  shows "map children (sls[k := f (sls ! k)]) = map children sls"
proof (cases "k < length sls")
  case True
  then show ?thesis by (simp add: map_update assms list_update_same_conv)
next
  case False
  then show ?thesis by (simp add: list_update_beyond)
qed

lemma parentElement_updSlot_same:
  assumes "\<And>sl. children (f sl) = children sl"
  shows "parentElement (updSlot k f s) p = parentElement s p"
  using slotIndexOf_cong [OF map_children_update_same [of f "slots s" k], OF assms]
  by (simp add: parentElement_def)

lemma parentElement_updPiece [simp]: "parentElement (updPiece q f s) p = parentElement s p"
  by (simp add: parentElement_def)

lemma parentElement_tray: "p \<in> set (tray s) \<Longrightarrow> parentElement s p = Some TrayElement"
  by (simp add: parentElement_def)

lemma parentElement_slot:
  assumes "count (located s) p \<le> 1" and "k < length (slots s)"
    and "p \<in> set (children (slots s ! k))"
  shows "parentElement s p = Some (SlotElement k)"
proof -
  have pos: "1 \<le> count (sum_list (map (\<lambda>sl. mset (children sl)) (slots s))) p"
    by (rule count_sum_children_pos [OF assms(2,3)])
  from assms(1)
  have "count (mset (tray s)) p + count (sum_list (map (\<lambda>sl. mset (children sl)) (slots s))) p \<le> 1"
    by (simp add: located_def)
  with pos have "count (mset (tray s)) p = 0"
    and "count (sum_list (map (\<lambda>sl. mset (children sl)) (slots s))) p \<le> 1"
    by arith+
  then have "p \<notin> set (tray s)" and "slotIndexOf (slots s) p = Some k"
    using slotIndexOf_unique [OF assms(2,3)] by (simp_all add: count_eq_zero_iff)
  then show ?thesis by (simp add: parentElement_def)
qed

lemma parentElement_SlotD:
  "parentElement s p = Some (SlotElement k)
     \<Longrightarrow> k < length (slots s) \<and> p \<in> set (children (slots s ! k)) \<and> p \<notin> set (tray s)"
  by (auto simp: parentElement_def dest: slotIndexOf_Some split: if_splits)

lemma parentElement_TrayD: "parentElement s p = Some TrayElement \<Longrightarrow> p \<in> set (tray s)"
  by (auto simp: parentElement_def split: if_splits)

lemma located_appendChild_tray:
  "located (appendChild TrayElement p s) = add_mset p (located s - {#p#})"
proof -
  have "located (appendChild TrayElement p s) = add_mset p (located (removeFromParent p s))"
    by (simp add: appendChild_def located_def Let_def)
  then show ?thesis by (simp add: located_removeFromParent)
qed

lemma length_slots_removeFromParent [simp]:
  "length (slots (removeFromParent p s)) = length (slots s)"
  by (simp add: removeFromParent_def split: option.split parent.split)

lemma pieces_removeFromParent [simp]: "pieces (removeFromParent p s) = pieces s"
  by (simp add: removeFromParent_def split: option.split parent.split)

lemma statusNode_removeFromParent [simp]: "statusNode (removeFromParent p s) = statusNode s"
  by (simp add: removeFromParent_def split: option.split parent.split)

lemma located_appendChild_slot:
  assumes "k < length (slots s)"
  shows "located (appendChild (SlotElement k) p s) = add_mset p (located s - {#p#})"
proof -
  let ?s1 = "removeFromParent p s"
  from assms have k: "k < length (slots ?s1)" by simp
  from located_updSlot [OF k, of "\<lambda>sl. sl\<lparr>children := children sl @ [p]\<rparr>"]
  have "located (appendChild (SlotElement k) p s) = add_mset p (located ?s1)"
    by (simp add: appendChild_def Let_def)
  then show ?thesis by (simp add: located_removeFromParent)
qed

lemma located_movePieceToTray:
  "located (movePieceToTray q s) = add_mset q (located s - {#q#})"
  by (simp add: movePieceToTray_def Let_def applyTrayStyles_def located_appendChild_tray
      located_updSlot_same split: option.split parent.split)

lemma length_slots_appendChild [simp]:
  "length (slots (appendChild tgt p s)) = length (slots s)"
  by (simp add: appendChild_def Let_def split: parent.split)

lemma pieces_appendChild [simp]: "pieces (appendChild tgt p s) = pieces s"
  by (simp add: appendChild_def Let_def split: parent.split)

lemma statusNode_appendChild [simp]: "statusNode (appendChild tgt p s) = statusNode s"
  by (simp add: appendChild_def Let_def split: parent.split)

lemma located_placePieceInSlot:
  assumes "k < length (slots s)"
  shows "located (placePieceInSlot p k s) = add_mset p (located s - {#p#})"
  using assms
  by (simp add: placePieceInSlot_def Let_def applySlotStyles_def located_appendChild_slot
      located_updSlot_same split: option.split parent.split)

subsection \<open>What moving a piece changes\<close>

lemma tray_removeFromParent: "tray (removeFromParent p s) = remove1 p (tray s)"
  by (auto simp: removeFromParent_def remove1_idem dest: parentElement_TrayD parentElement_SlotD
      split: option.split parent.split simp: parentElement_def)

lemma slots_removeFromParent:
  "j < length (slots s) \<Longrightarrow>
   slots (removeFromParent p s) ! j =
     (if parentElement s p = Some (SlotElement j)
      then (slots s ! j)\<lparr>children := remove1 p (children (slots s ! j))\<rparr>
      else slots s ! j)"
  by (simp add: removeFromParent_def nth_list_update split: option.split parent.split)

lemma tray_appendChild_tray: "tray (appendChild TrayElement p s) = remove1 p (tray s) @ [p]"
  by (simp add: appendChild_def Let_def tray_removeFromParent)

lemma slots_appendChild_tray:
  "j < length (slots s) \<Longrightarrow>
   slots (appendChild TrayElement p s) ! j =
     (if parentElement s p = Some (SlotElement j)
      then (slots s ! j)\<lparr>children := remove1 p (children (slots s ! j))\<rparr>
      else slots s ! j)"
  by (simp add: appendChild_def Let_def slots_removeFromParent)

lemma tray_appendChild_slot: "tray (appendChild (SlotElement k) p s) = remove1 p (tray s)"
  by (simp add: appendChild_def Let_def tray_removeFromParent)

lemma slots_appendChild_slot:
  "j < length (slots s) \<Longrightarrow>
   slots (appendChild (SlotElement k) p s) ! j =
     (let base = (if parentElement s p = Some (SlotElement j)
                  then (slots s ! j)\<lparr>children := remove1 p (children (slots s ! j))\<rparr>
                  else slots s ! j)
      in if j = k then base\<lparr>children := children base @ [p]\<rparr> else base)"
  by (simp add: appendChild_def Let_def slots_removeFromParent nth_list_update)

lemma length_slots_movePieceToTray [simp]:
  "length (slots (movePieceToTray q s)) = length (slots s)"
  by (simp add: movePieceToTray_def Let_def applyTrayStyles_def split: option.split parent.split)

lemma length_pieces_movePieceToTray [simp]:
  "length (pieces (movePieceToTray q s)) = length (pieces s)"
  by (simp add: movePieceToTray_def Let_def applyTrayStyles_def split: option.split parent.split)

lemma statusNode_movePieceToTray [simp]:
  "statusNode (movePieceToTray q s) = statusNode s"
  by (simp add: movePieceToTray_def Let_def applyTrayStyles_def split: option.split parent.split)

lemma tray_movePieceToTray: "tray (movePieceToTray q s) = remove1 q (tray s) @ [q]"
  by (simp add: movePieceToTray_def Let_def applyTrayStyles_def tray_appendChild_tray
      split: option.split parent.split)

lemma slots_movePieceToTray:
  "j < length (slots s) \<Longrightarrow>
   slots (movePieceToTray q s) ! j =
     (if parentElement s q = Some (SlotElement j)
      then (slots s ! j)\<lparr>children := remove1 q (children (slots s ! j)),
                           filled := False, drag_over := False\<rparr>
      else slots s ! j)"
  by (simp add: movePieceToTray_def Let_def applyTrayStyles_def slots_appendChild_tray
      parentElement_updSlot_same nth_list_update split: option.split parent.split)

lemma pieces_movePieceToTray:
  "pieces (movePieceToTray q s) =
     (pieces s)[q := (pieces s ! q)\<lparr>style := TrayStyles, placedSlot := Some []\<rparr>]"
  by (cases "q < length (pieces s)")
     (simp_all add: movePieceToTray_def Let_def applyTrayStyles_def list_update_beyond
      split: option.split parent.split)

lemma length_slots_placePieceInSlot [simp]:
  "length (slots (placePieceInSlot p k s)) = length (slots s)"
  by (simp add: placePieceInSlot_def Let_def applySlotStyles_def split: option.split parent.split)

lemma length_pieces_placePieceInSlot [simp]:
  "length (pieces (placePieceInSlot p k s)) = length (pieces s)"
  by (simp add: placePieceInSlot_def Let_def applySlotStyles_def split: option.split parent.split)

lemma statusNode_placePieceInSlot [simp]:
  "statusNode (placePieceInSlot p k s) = statusNode s"
  by (simp add: placePieceInSlot_def Let_def applySlotStyles_def split: option.split parent.split)

lemma tray_placePieceInSlot: "tray (placePieceInSlot p k s) = remove1 p (tray s)"
  by (simp add: placePieceInSlot_def Let_def applySlotStyles_def tray_appendChild_slot
      split: option.split parent.split)

lemma slots_placePieceInSlot:
  "j < length (slots s) \<Longrightarrow>
   slots (placePieceInSlot p k s) ! j =
     (if j = k
      then (slots s ! j)\<lparr>children :=
              (if parentElement s p = Some (SlotElement j)
               then remove1 p (children (slots s ! j)) else children (slots s ! j)) @ [p],
              filled := True\<rparr>
      else if parentElement s p = Some (SlotElement j)
      then (slots s ! j)\<lparr>children := remove1 p (children (slots s ! j)), filled := False\<rparr>
      else slots s ! j)"
  by (simp add: placePieceInSlot_def Let_def applySlotStyles_def slots_appendChild_slot
      parentElement_updSlot_same nth_list_update split: option.split parent.split)

lemma pieces_placePieceInSlot:
  assumes "k < length (slots s)"
  shows "pieces (placePieceInSlot p k s) =
     (pieces s)[p := (pieces s ! p)\<lparr>style := SlotStyles,
                                     placedSlot := Some (slotId (slots s ! k))\<rparr>]"
proof -
  have "pieces (placePieceInSlot p k s) =
     (pieces s)[p := (pieces s ! p)\<lparr>style := SlotStyles,
        placedSlot := Some (slotId (slots (placePieceInSlot p k s) ! k))\<rparr>]"
    by (cases "p < length (pieces s)")
       (simp_all add: placePieceInSlot_def Let_def applySlotStyles_def list_update_beyond
        split: option.split parent.split)
  then show ?thesis using assms by (simp add: slots_placePieceInSlot)
qed

subsection \<open>Well-formed stores\<close>

lemma findPiece_Some:
  "findPiece ps i = Some p \<Longrightarrow> p < length ps \<and> pieceId (ps ! p) = i"
  by (induction ps arbitrary: p) (auto split: if_splits)

lemma findPiece_None: "findPiece ps i = None \<longleftrightarrow> i \<notin> pieceId ` set ps"
  by (induction ps) auto

lemma tray_setStatus [simp]: "tray (setStatus m s) = tray s"
  and slots_setStatus [simp]: "slots (setStatus m s) = slots s"
  and pieces_setStatus [simp]: "pieces (setStatus m s) = pieces s"
  by (simp_all add: setStatus_def split: option.split)

lemma statusNode_setStatus:
  "statusNode (setStatus m s) = (case statusNode s of None \<Rightarrow> None | Some _ \<Rightarrow> Some m)"
  by (simp add: setStatus_def split: option.split)

lemma tray_checkCompletion [simp]: "tray (checkCompletion s) = tray s"
  and slots_checkCompletion [simp]: "slots (checkCompletion s) = slots s"
  and pieces_checkCompletion [simp]: "pieces (checkCompletion s) = pieces s"
  by (simp_all add: checkCompletion_def Let_def)

lemma located_cong:
  "tray s' = tray s \<Longrightarrow> map children (slots s') = map children (slots s)
     \<Longrightarrow> located s' = located s"
proof -
  assume t: "tray s' = tray s" and m: "map children (slots s') = map children (slots s)"
  have "map (\<lambda>sl. mset (children sl)) (slots s') = map mset (map children (slots s'))"
    by simp
  also have "\<dots> = map (\<lambda>sl. mset (children sl)) (slots s)"
    by (simp add: m)
  finally show ?thesis using t by (simp add: located_def)
qed

lemma wellFormed_cong:
  assumes "tray s' = tray s" and "map children (slots s') = map children (slots s)"
    and "length (pieces s') = length (pieces s)"
  shows "wellFormed s' = wellFormed s"
proof -
  have "(\<forall>sl\<in>set (slots s'). length (children sl) \<le> 1)
      \<longleftrightarrow> (\<forall>c\<in>set (map children (slots s')). length c \<le> 1)" by simp
  also have "\<dots> \<longleftrightarrow> (\<forall>sl\<in>set (slots s). length (children sl) \<le> 1)"
    by (simp add: assms(2))
  finally show ?thesis
    by (simp add: wellFormed_def located_cong [OF assms(1,2)] assms(3))
qed

lemma wellFormed_setStatus [simp]: "wellFormed (setStatus m s) = wellFormed s"
  by (rule wellFormed_cong) simp_all

lemma wellFormed_checkCompletion [simp]: "wellFormed (checkCompletion s) = wellFormed s"
  by (rule wellFormed_cong) simp_all

lemma wellFormed_updSlot_same:
  assumes "\<And>sl. children (f sl) = children sl"
  shows "wellFormed (updSlot k f s) = wellFormed s"
  by (rule wellFormed_cong) (simp_all add: map_children_update_same assms)

lemma wellFormed_updPiece [simp]: "wellFormed (updPiece p f s) = wellFormed s"
  by (rule wellFormed_cong) simp_all

lemma count_upt: "count (mset [0..<n]) p = (if p < n then 1 else 0)"
  by (simp add: count_mset count_list_0_iff distinct_count_atmost_1)

lemma wellFormed_count:
  "wellFormed s \<Longrightarrow> count (located s) p = (if p < length (pieces s) then 1 else 0)"
  by (simp add: wellFormed_def count_upt)

lemma wellFormed_count_le: "wellFormed s \<Longrightarrow> count (located s) p \<le> 1"
  by (simp add: wellFormed_count)

lemma wellFormed_slot_size:
  "wellFormed s \<Longrightarrow> k < length (slots s) \<Longrightarrow> length (children (slots s ! k)) \<le> 1"
  by (simp add: wellFormed_def)

lemma in_slot_located:
  "k < length (slots s) \<Longrightarrow> p \<in> set (children (slots s ! k)) \<Longrightarrow> p \<in># located s"
  by (auto simp: located_def)

lemma wellFormed_in_slot:
  assumes "wellFormed s" and "k < length (slots s)" and "p \<in> set (children (slots s ! k))"
  shows "p < length (pieces s)" and "parentElement s p = Some (SlotElement k)"
    and "children (slots s ! k) = [p]"
proof -
  from in_slot_located [OF assms(2,3)] wellFormed_count [OF assms(1), of p]
  show "p < length (pieces s)" by (auto simp: count_eq_zero_iff split: if_splits)
  show "parentElement s p = Some (SlotElement k)"
    by (rule parentElement_slot [OF wellFormed_count_le [OF assms(1)] assms(2,3)])
  from wellFormed_slot_size [OF assms(1,2)] assms(3)
  show "children (slots s ! k) = [p]"
    by (cases "children (slots s ! k)") auto
qed

lemma wellFormed_in_tray:
  assumes "wellFormed s" and "p \<in> set (tray s)"
  shows "p < length (pieces s)"
proof -
  from assms(2) have "p \<in># located s" by (simp add: located_def)
  with wellFormed_count [OF assms(1), of p] show ?thesis
    by (auto simp: count_eq_zero_iff split: if_splits)
qed

lemma located_readd: "p \<in># M \<Longrightarrow> add_mset p (M - {#p#}) = M"
  by simp

lemma wellFormed_located_mem: "wellFormed s \<Longrightarrow> p < length (pieces s) \<Longrightarrow> p \<in># located s"
  by (simp add: wellFormed_def)

lemma wellFormed_movePieceToTray:
  assumes "wellFormed s" and "q < length (pieces s)"
  shows "wellFormed (movePieceToTray q s)"
proof -
  have "located (movePieceToTray q s) = located s"
    using wellFormed_located_mem [OF assms] by (simp add: located_movePieceToTray)
  moreover have "length (children (slots (movePieceToTray q s) ! j)) \<le> 1"
    if "j < length (slots s)" for j
    using wellFormed_slot_size [OF assms(1) that] that
    by (auto simp: slots_movePieceToTray length_remove1 split: if_splits)
  ultimately show ?thesis using assms(1)
    by (simp add: wellFormed_def all_set_conv_all_nth)
qed

lemma wellFormed_placePieceInSlot:
  assumes "wellFormed s" and "p < length (pieces s)" and "k < length (slots s)"
    and "set (children (slots s ! k)) \<subseteq> {p}"
  shows "wellFormed (placePieceInSlot p k s)"
proof -
  have "located (placePieceInSlot p k s) = located s"
    using wellFormed_located_mem [OF assms(1,2)] assms(3)
    by (simp add: located_placePieceInSlot)
  moreover have "length (children (slots (placePieceInSlot p k s) ! j)) \<le> 1"
    if j: "j < length (slots s)" for j
  proof (cases "j = k")
    case False
    with wellFormed_slot_size [OF assms(1) j] j show ?thesis
      by (auto simp: slots_placePieceInSlot length_remove1 split: if_splits)
  next
    case True
    show ?thesis
    proof (cases "children (slots s ! k) = []")
      case True
      then have "parentElement s p \<noteq> Some (SlotElement k)"
        by (auto dest: parentElement_SlotD)
      with True \<open>j = k\<close> j show ?thesis by (simp add: slots_placePieceInSlot)
    next
      case False
      with assms(4) have "p \<in> set (children (slots s ! k))"
        by (cases "children (slots s ! k)") auto
      from wellFormed_in_slot(2,3) [OF assms(1,3) this] \<open>j = k\<close> j
      show ?thesis by (simp add: slots_placePieceInSlot)
    qed
  qed
  ultimately show ?thesis using assms(1)
    by (simp add: wellFormed_def all_set_conv_all_nth)
qed

subsection \<open>The drop handlers keep the store well formed\<close>

lemma querySelector_None: "querySelector sl = None \<longleftrightarrow> children sl = []"
  by (simp add: querySelector_def split: list.split)

lemma querySelector_Some: "querySelector sl = Some q \<Longrightarrow> q \<in> set (children sl)"
  by (auto simp: querySelector_def split: list.splits)

text \<open>The state after the occupant of the target slot has been sent to the tray.\<close>

lemma evicted_wellFormed:
  fixes p :: node
  assumes "wellFormed s" and "k < length (slots s)"
  defines "s1 \<equiv> (case querySelector (slots s ! k) of
                    None \<Rightarrow> s
                  | Some occupyingPiece \<Rightarrow>
                      if occupyingPiece \<noteq> p then movePieceToTray occupyingPiece s else s)"
  shows "wellFormed s1" and "set (children (slots s1 ! k)) \<subseteq> {p}"
    and "length (slots s1) = length (slots s)" and "length (pieces s1) = length (pieces s)"
proof -
  show "length (slots s1) = length (slots s)" and "length (pieces s1) = length (pieces s)"
    by (simp_all add: s1_def split: option.split)
  show "wellFormed s1"
  proof (cases "querySelector (slots s ! k)")
    case None
    with assms(1) show ?thesis by (simp add: s1_def)
  next
    case (Some q)
    from wellFormed_in_slot(1) [OF assms(1,2) querySelector_Some [OF Some]]
    have "wellFormed (movePieceToTray q s)"
      by (rule wellFormed_movePieceToTray [OF assms(1)])
    with Some assms(1) show ?thesis by (simp add: s1_def)
  qed
  show "set (children (slots s1 ! k)) \<subseteq> {p}"
  proof (cases "querySelector (slots s ! k)")
    case None
    then have "children (slots s ! k) = []" by (simp add: querySelector_None)
    with None show ?thesis by (simp add: s1_def)
  next
    case (Some q)
    note q = wellFormed_in_slot [OF assms(1,2) querySelector_Some [OF Some]]
    show ?thesis
    proof (cases "q = p")
      case True
      with Some q(3) show ?thesis by (simp add: s1_def)
    next
      case False
      with Some q(2,3) assms(2) show ?thesis
        by (simp add: s1_def slots_movePieceToTray)
    qed
  qed
qed

lemma wellFormed_handleDropOnSlot:
  assumes "wellFormed s" and "currentTarget e < length (slots s)"
    and "snd (handleDropOnSlot e (Some s)) = Some s'"
  shows "wellFormed s'"
proof (cases "findPiece (pieces s) (dataTransfer e)")
  case None
  with assms(1,3) show ?thesis by (simp add: handleDropOnSlot_def)
next
  case (Some p)
  let ?k = "currentTarget e"
  let ?s1 = "case querySelector (slots s ! ?k) of
               None \<Rightarrow> s
             | Some occupyingPiece \<Rightarrow>
                 if occupyingPiece \<noteq> p then movePieceToTray occupyingPiece s else s"
  from findPiece_Some [OF Some] have p: "p < length (pieces s)" by simp
  note e = evicted_wellFormed [OF assms(1,2), of p]
  from e p assms(2) have "wellFormed (placePieceInSlot p ?k ?s1)"
    by (intro wellFormed_placePieceInSlot) simp_all
  moreover from assms(3) Some
  have "s' = checkCompletion (setStatus msgPlaced
          (updSlot ?k (\<lambda>sl. sl\<lparr>drag_over := False\<rparr>) (placePieceInSlot p ?k ?s1)))"
    by (simp add: handleDropOnSlot_def Let_def)
  ultimately show ?thesis by (simp add: wellFormed_updSlot_same)
qed

lemma wellFormed_handleDropOnTray:
  assumes "wellFormed s" and "snd (handleDropOnTray e (Some s)) = Some s'"
  shows "wellFormed s'"
proof (cases "findPiece (pieces s) (dataTransfer e)")
  case None
  with assms show ?thesis by (simp add: handleDropOnTray_def)
next
  case (Some p)
  from findPiece_Some [OF Some] have "p < length (pieces s)" by simp
  from wellFormed_movePieceToTray [OF assms(1) this] assms(2) Some
  show ?thesis by (auto simp: handleDropOnTray_def Let_def)
qed

lemma length_fisherYates [simp]: "length (fisherYates rnd i xs) = length xs"
  by (induction rnd i xs rule: fisherYates.induct) (simp_all add: Let_def)

lemma random_index:
  assumes "0 \<le> r" and "r < 1"
  shows "nat \<lfloor>r * real (Suc i)\<rfloor> \<le> i"
proof -
  have "r * real (Suc i) < real (Suc i)"
    using assms by (simp add: mult_less_cancel_right1 del: of_nat_Suc)
  then have "\<lfloor>r * real (Suc i)\<rfloor> < int (Suc i)"
    by (simp add: floor_less_iff del: of_nat_Suc)
  then show ?thesis by simp
qed

lemma mset_fisherYates:
  assumes "\<forall>i. 0 \<le> rnd i \<and> rnd i < 1"
  shows "i < length xs \<Longrightarrow> mset (fisherYates rnd i xs) = mset xs"
  using assms
proof (induction rnd i xs rule: fisherYates.induct)
  case (1 rnd shuffled)
  then show ?case by simp
next
  case (2 rnd i shuffled)
  define j where "j = nat \<lfloor>rnd (Suc i) * real (Suc i + 1)\<rfloor>"
  from 2(3) have "0 \<le> rnd (Suc i)" and "rnd (Suc i) < 1" by simp_all
  from random_index [OF this, of "Suc i"] have "j \<le> Suc i" by (simp add: j_def)
  with 2(2) have j: "j < length shuffled" by simp
  let ?swapped = "shuffled[Suc i := shuffled ! j, j := shuffled ! Suc i]"
  have "mset (fisherYates rnd i ?swapped) = mset ?swapped"
    using 2(1) [OF j_def] 2(2,3) by simp
  also have "\<dots> = mset shuffled"
    using j 2(2) by (rule mset_swap)
  finally show ?case by (simp add: Let_def j_def)
qed

subsection \<open>The three phases of a shuffle\<close>

lemma wellFormed_clearSlot:
  assumes "wellFormed s" and "k < length (slots s)"
  shows "wellFormed (clearSlot k s)"
    and "length (slots (clearSlot k s)) = length (slots s)"
    and "length (pieces (clearSlot k s)) = length (pieces s)"
    and "\<And>j. j < length (slots s) \<Longrightarrow>
           children (slots (clearSlot k s) ! j) = (if j = k then [] else children (slots s ! j))"
    and "\<And>j. j < length (slots s) \<Longrightarrow> j \<noteq> k \<Longrightarrow>
           filled (slots (clearSlot k s) ! j) = filled (slots s ! j) \<and>
           drag_over (slots (clearSlot k s) ! j) = drag_over (slots s ! j)"
    and "\<not> filled (slots (clearSlot k s) ! k)" and "\<not> drag_over (slots (clearSlot k s) ! k)"
    and "map slotId (slots (clearSlot k s)) = map slotId (slots s)"
    and "statusNode (clearSlot k s) = statusNode s"
proof -
  let ?s1 = "case querySelector (slots s ! k) of None \<Rightarrow> s
             | Some occupant \<Rightarrow> movePieceToTray occupant s"
  have c: "clearSlot k s = updSlot k (\<lambda>sl. sl\<lparr>filled := False, drag_over := False\<rparr>) ?s1"
    by (simp add: clearSlot_def Let_def)
  have len: "length (slots ?s1) = length (slots s)" "length (pieces ?s1) = length (pieces s)"
    "statusNode ?s1 = statusNode s"
    by (simp_all split: option.split)
  have wf1: "wellFormed ?s1"
  proof (cases "querySelector (slots s ! k)")
    case None
    with assms(1) show ?thesis by simp
  next
    case (Some q)
    from wellFormed_in_slot(1) [OF assms querySelector_Some [OF Some]]
    have "wellFormed (movePieceToTray q s)" by (rule wellFormed_movePieceToTray [OF assms(1)])
    with Some show ?thesis by simp
  qed
  have ch: "slots ?s1 ! j = (if j = k then (slots ?s1 ! k) else slots s ! j)
            \<and> children (slots ?s1 ! k) = []"
    if j: "j < length (slots s)" for j
  proof (cases "querySelector (slots s ! k)")
    case None
    then have "children (slots s ! k) = []" by (simp add: querySelector_None)
    with None show ?thesis by simp
  next
    case (Some q)
    note q = wellFormed_in_slot [OF assms querySelector_Some [OF Some]]
    with Some j assms(2) show ?thesis by (simp add: slots_movePieceToTray)
  qed
  show "wellFormed (clearSlot k s)"
    using wf1 by (simp add: c wellFormed_updSlot_same)
  show "length (slots (clearSlot k s)) = length (slots s)"
    and "length (pieces (clearSlot k s)) = length (pieces s)"
    and "statusNode (clearSlot k s) = statusNode s"
    using len by (simp_all add: c)
  show "children (slots (clearSlot k s) ! j) = (if j = k then [] else children (slots s ! j))"
    if "j < length (slots s)" for j
    using ch [OF that] ch [OF assms(2)] that len by (simp add: c nth_list_update)
  show "filled (slots (clearSlot k s) ! j) = filled (slots s ! j) \<and>
        drag_over (slots (clearSlot k s) ! j) = drag_over (slots s ! j)"
    if "j < length (slots s)" "j \<noteq> k" for j
    using ch [OF that(1)] that len by (simp add: c nth_list_update)
  show "\<not> filled (slots (clearSlot k s) ! k)" and "\<not> drag_over (slots (clearSlot k s) ! k)"
    using assms(2) len by (simp_all add: c)
  have sid: "slotId (slots ?s1 ! j) = slotId (slots s ! j)" if "j < length (slots s)" for j
    using that by (simp add: slots_movePieceToTray split: option.split)
  show "map slotId (slots (clearSlot k s)) = map slotId (slots s)"
  proof (rule nth_equalityI)
    show "length (map slotId (slots (clearSlot k s))) = length (map slotId (slots s))"
      using len by (simp add: c)
    fix i
    assume "i < length (map slotId (slots (clearSlot k s)))"
    then have i: "i < length (slots s)" using len by (simp add: c)
    with sid [OF i] sid [OF assms(2)] len assms(2)
    show "map slotId (slots (clearSlot k s)) ! i = map slotId (slots s) ! i"
      by (cases "i = k") (simp_all add: c)
  qed
qed

lemma fold_clearSlot:
  assumes "wellFormed s"
  shows "m \<le> length (slots s) \<Longrightarrow>
     wellFormed (fold clearSlot [0..<m] s) \<and>
     length (slots (fold clearSlot [0..<m] s)) = length (slots s) \<and>
     length (pieces (fold clearSlot [0..<m] s)) = length (pieces s) \<and>
     statusNode (fold clearSlot [0..<m] s) = statusNode s \<and>
     map slotId (slots (fold clearSlot [0..<m] s)) = map slotId (slots s) \<and>
     (\<forall>j<m. children (slots (fold clearSlot [0..<m] s) ! j) = [] \<and>
             \<not> filled (slots (fold clearSlot [0..<m] s) ! j) \<and>
             \<not> drag_over (slots (fold clearSlot [0..<m] s) ! j))"
proof (induction m)
  case 0
  with assms show ?case by simp
next
  case (Suc m)
  let ?t = "fold clearSlot [0..<m] s"
  from Suc have IH: "wellFormed ?t" "length (slots ?t) = length (slots s)"
    "length (pieces ?t) = length (pieces s)" "statusNode ?t = statusNode s"
    "map slotId (slots ?t) = map slotId (slots s)"
    "\<forall>j<m. children (slots ?t ! j) = [] \<and> \<not> filled (slots ?t ! j) \<and> \<not> drag_over (slots ?t ! j)"
    by simp_all
  from Suc.prems IH(2) have m: "m < length (slots ?t)" by simp
  note c = wellFormed_clearSlot [OF IH(1) m]
  have f: "fold clearSlot [0..<Suc m] s = clearSlot m ?t" by simp
  have "children (slots (clearSlot m ?t) ! j) = [] \<and> \<not> filled (slots (clearSlot m ?t) ! j)
        \<and> \<not> drag_over (slots (clearSlot m ?t) ! j)" if "j < Suc m" for j
  proof (cases "j = m")
    case True
    with c(4) [OF m] c(6,7) show ?thesis by simp
  next
    case False
    with that have "j < m" by simp
    with m have "j < length (slots ?t)" by simp
    from c(4) [OF this] c(5) [OF this False] IH(6) \<open>j < m\<close> False show ?thesis by simp
  qed
  with c(1,2,3,8,9) IH(2,3,4,5) show ?case by (simp only: f) simp
qed

lemma fold_reappend:
  "distinct tr \<Longrightarrow> distinct xs \<Longrightarrow>
     fold (\<lambda>p tr. remove1 p tr @ [p]) xs tr = filter (\<lambda>q. q \<notin> set xs) tr @ xs"
proof (induction xs arbitrary: tr)
  case Nil
  then show ?case by simp
next
  case (Cons p xs)
  from Cons.prems have d: "distinct (remove1 p tr @ [p])" by simp
  from Cons.prems have "distinct xs" and p: "p \<notin> set xs" by simp_all
  from Cons.IH [OF d this(1)] p
  have "fold (\<lambda>p tr. remove1 p tr @ [p]) (p # xs) tr
      = filter (\<lambda>q. q \<notin> set xs) (remove1 p tr) @ p # xs" by simp
  also have "filter (\<lambda>q. q \<notin> set xs) (remove1 p tr) = filter (\<lambda>q. q \<notin> set (p # xs)) tr"
    using Cons.prems(1)
    by (auto simp: distinct_remove1_removeAll removeAll_filter_not_eq intro!: filter_cong)
  finally show ?case .
qed

lemma retray_step:
  assumes "\<forall>sl\<in>set (slots t). children sl = []"
  shows "slots (applyTrayStyles p (appendChild TrayElement p t)) = slots t"
    and "tray (applyTrayStyles p (appendChild TrayElement p t)) = remove1 p (tray t) @ [p]"
    and "length (pieces (applyTrayStyles p (appendChild TrayElement p t))) = length (pieces t)"
    and "statusNode (applyTrayStyles p (appendChild TrayElement p t)) = statusNode t"
proof -
  have "parentElement t p \<noteq> Some (SlotElement j)" for j
    using assms by (auto dest!: parentElement_SlotD)
  then show "slots (applyTrayStyles p (appendChild TrayElement p t)) = slots t"
    by (auto simp: applyTrayStyles_def slots_appendChild_tray intro!: nth_equalityI)
qed (simp_all add: applyTrayStyles_def tray_appendChild_tray)

lemma fold_retray:
  assumes "\<forall>sl\<in>set (slots t). children sl = []"
  shows "slots (fold (\<lambda>p t. applyTrayStyles p (appendChild TrayElement p t)) xs t) = slots t \<and>
     tray (fold (\<lambda>p t. applyTrayStyles p (appendChild TrayElement p t)) xs t)
       = fold (\<lambda>p tr. remove1 p tr @ [p]) xs (tray t) \<and>
     length (pieces (fold (\<lambda>p t. applyTrayStyles p (appendChild TrayElement p t)) xs t))
       = length (pieces t) \<and>
     statusNode (fold (\<lambda>p t. applyTrayStyles p (appendChild TrayElement p t)) xs t)
       = statusNode t"
  using assms
proof (induction xs arbitrary: t)
  case Nil
  then show ?case by simp
next
  case (Cons p xs)
  note st = retray_step [OF Cons.prems, of p]
  from Cons.prems st(1)
  have "\<forall>sl\<in>set (slots (applyTrayStyles p (appendChild TrayElement p t))). children sl = []"
    by simp
  from Cons.IH [OF this] st show ?case by simp
qed

lemma sum_children_empty:
  "\<forall>sl\<in>set sls. children sl = [] \<Longrightarrow> sum_list (map (\<lambda>sl. mset (children sl)) sls) = {#}"
  by (induction sls) simp_all

lemma located_all_empty:
  "\<forall>sl\<in>set (slots s). children sl = [] \<Longrightarrow> located s = mset (tray s)"
  by (simp add: located_def sum_children_empty)

lemma mset_upt_distinct:
  assumes "mset xs = mset [0..<n]"
  shows "distinct xs" and "set xs = {0..<n}"
proof -
  from assms have "distinct xs = distinct [0..<n]" by (rule mset_eq_imp_distinct_iff)
  then show "distinct xs" by simp
  from assms have "set xs = set [0..<n]" by (rule mset_eq_setD)
  then show "set xs = {0..<n}" by simp
qed

lemma shufflePieces_result:
  assumes "wellFormed s" and "\<forall>i. 0 \<le> rnd i \<and> rnd i < 1"
  shows "\<exists>s'. shufflePieces rnd (Some s) = Some s' \<and>
           tray s' = fisherYates rnd (length (pieces s) - 1) [0..<length (pieces s)] \<and>
           mset (tray s') = mset [0..<length (pieces s)] \<and>
           (\<forall>sl\<in>set (slots s'). children sl = [] \<and> \<not> filled sl \<and> \<not> drag_over sl) \<and>
           map slotId (slots s') = map slotId (slots s) \<and>
           length (pieces s') = length (pieces s) \<and>
           statusNode s' = (case statusNode s of None \<Rightarrow> None | Some _ \<Rightarrow> Some msgShuffled)"
proof -
  let ?n = "length (pieces s)"
  let ?s1 = "fold clearSlot [0..<length (slots s)] s"
  let ?sh = "fisherYates rnd (?n - 1) [0..<?n]"
  let ?step = "\<lambda>p t. applyTrayStyles p (appendChild TrayElement p t)"
  let ?s2 = "fold ?step ?sh ?s1"
  from fold_clearSlot [OF assms(1), of "length (slots s)"]
  have s1: "wellFormed ?s1" "length (slots ?s1) = length (slots s)"
    "length (pieces ?s1) = ?n" "statusNode ?s1 = statusNode s"
    "map slotId (slots ?s1) = map slotId (slots s)"
    and e: "\<forall>j<length (slots ?s1). children (slots ?s1 ! j) = [] \<and> \<not> filled (slots ?s1 ! j)
              \<and> \<not> drag_over (slots ?s1 ! j)"
    by simp_all
  from e have empty: "\<forall>sl\<in>set (slots ?s1). children sl = []"
    and flags: "\<forall>sl\<in>set (slots ?s1). children sl = [] \<and> \<not> filled sl \<and> \<not> drag_over sl"
    by (simp_all add: all_set_conv_all_nth)
  from s1(1,3) located_all_empty [OF empty]
  have tr: "mset (tray ?s1) = mset [0..<?n]" by (simp add: wellFormed_def)
  have sh: "mset ?sh = mset [0..<?n]"
  proof (cases "?n = 0")
    case True
    then show ?thesis by simp
  next
    case False
    then have "?n - 1 < length [0..<?n]" by simp
    from mset_fisherYates [OF assms(2) this] show ?thesis .
  qed
  note r = fold_retray [OF empty, of ?sh]
  from r have "tray ?s2 = fold (\<lambda>p tr. remove1 p tr @ [p]) ?sh (tray ?s1)" by simp
  also have "\<dots> = filter (\<lambda>q. q \<notin> set ?sh) (tray ?s1) @ ?sh"
    using mset_upt_distinct(1) [OF tr] mset_upt_distinct(1) [OF sh] by (rule fold_reappend)
  also have "filter (\<lambda>q. q \<notin> set ?sh) (tray ?s1) = []"
    using mset_upt_distinct(2) [OF tr] mset_upt_distinct(2) [OF sh] by (simp add: filter_empty_conv)
  finally have t2: "tray ?s2 = ?sh" by simp
  have "shufflePieces rnd (Some s) = Some (setStatus msgShuffled ?s2)"
    by (simp add: shufflePieces_def Let_def s1(3))
  moreover have "tray (setStatus msgShuffled ?s2) = ?sh" using t2 by simp
  moreover have "mset (tray (setStatus msgShuffled ?s2)) = mset [0..<?n]" using t2 sh by simp
  moreover have "\<forall>sl\<in>set (slots (setStatus msgShuffled ?s2)).
      children sl = [] \<and> \<not> filled sl \<and> \<not> drag_over sl"
    using r flags by simp
  moreover have "map slotId (slots (setStatus msgShuffled ?s2)) = map slotId (slots s)"
    using r s1(5) by simp
  moreover have "length (pieces (setStatus msgShuffled ?s2)) = ?n"
    using r s1(3) by simp
  moreover have "statusNode (setStatus msgShuffled ?s2)
      = (case statusNode s of None \<Rightarrow> None | Some _ \<Rightarrow> Some msgShuffled)"
    using r s1(4) by (simp add: statusNode_setStatus)
  ultimately show ?thesis by blast
qed

lemma wellFormed_all_in_tray:
  assumes "mset (tray s) = mset [0..<length (pieces s)]"
    and "\<forall>sl\<in>set (slots s). children sl = []"
  shows "wellFormed s"
  using assms by (simp add: wellFormed_def located_all_empty)

lemma wellFormed_shufflePieces:
  assumes "wellFormed s" and "\<forall>i. 0 \<le> rnd i \<and> rnd i < 1"
    and "shufflePieces rnd (Some s) = Some s'"
  shows "wellFormed s'"
proof -
  from shufflePieces_result [OF assms(1,2)] assms(3)
  have "mset (tray s') = mset [0..<length (pieces s')]"
    and "\<forall>sl\<in>set (slots s'). children sl = []" by auto
  then show ?thesis by (rule wellFormed_all_in_tray)
qed

lemma length_rebuildBoard [simp]: "length (rebuildBoard bs) = bs * bs"
  by (simp add: rebuildBoard_def)

lemma length_rebuildTray [simp]: "length (rebuildTray n) = n"
  by (simp add: rebuildTray_def)

lemma tray_hydratePieces [simp]: "tray (hydratePieces tx s) = tray s"
  and slots_hydratePieces [simp]: "slots (hydratePieces tx s) = slots s"
  and length_pieces_hydratePieces [simp]: "length (pieces (hydratePieces tx s)) = length (pieces s)"
  and statusNode_hydratePieces [simp]: "statusNode (hydratePieces tx s) = statusNode s"
  by (simp_all add: hydratePieces_def)

lemma initPuzzle_wellFormed:
  assumes "\<forall>i. 0 \<le> rnd i \<and> rnd i < 1" and "initPuzzle panelStatus loaded rnd = Some s"
  shows "wellFormed s"
proof (cases loaded)
  case None
  with assms(2) show ?thesis by (simp add: initPuzzle_def)
next
  case (Some im)
  define bs where "bs = nat (computeBoardSize im)"
  define s0 where "s0 = \<lparr>tray = [0..<bs * bs], slots = rebuildBoard bs,
     pieces = rebuildTray (bs * bs), boardSize = bs, pieceSize = BOARD_DIMENSION / real bs,
     trayPieceSize = max 40 (min (BOARD_DIMENSION / real bs - 8) 80),
     statusNode = panelStatus\<rparr>"
  define s1 where "s1 = hydratePieces (sliceScene bs (BOARD_DIMENSION / real bs)) s0"
  have "wellFormed s0"
    by (rule wellFormed_all_in_tray) (simp_all add: s0_def rebuildBoard_def)
  then have wf1: "wellFormed s1"
    by (simp add: s1_def wellFormed_cong [of "hydratePieces tx s0" s0 for tx])
  from assms(2) Some
  have "map_option (setStatus (msgLoaded im)) (shufflePieces rnd (Some s1)) = Some s"
    by (simp add: initPuzzle_def Let_def bs_def s0_def s1_def)
  then obtain s2 where "shufflePieces rnd (Some s1) = Some s2" and "s = setStatus (msgLoaded im) s2"
    by auto
  with wellFormed_shufflePieces [OF wf1 assms(1)] show ?thesis by simp
qed

subsection \<open>Displacement and frame\<close>

lemma handleDropOnSlot_found:
  assumes "findPiece (pieces s) (dataTransfer e) = Some p"
  shows "handleDropOnSlot e (Some s) =
     (Undefined, Some (checkCompletion (setStatus msgPlaced
        (updSlot (currentTarget e) (\<lambda>sl. sl\<lparr>drag_over := False\<rparr>)
          (placePieceInSlot p (currentTarget e)
             (case querySelector (slots s ! currentTarget e) of
                None \<Rightarrow> s
              | Some occupyingPiece \<Rightarrow>
                  if occupyingPiece \<noteq> p then movePieceToTray occupyingPiece s else s))))))"
  using assms by (simp add: handleDropOnSlot_def Let_def)

lemma displacement_aux:
  assumes wf: "wellFormed s" and c: "c < length (slots s)"
    and A: "children (slots s ! c) = [A]" and B: "B \<in> set (tray s)"
  defines "s1 \<equiv> movePieceToTray A s"
  defines "s2 \<equiv> placePieceInSlot B c s1"
  shows "A \<noteq> B"
    and "tray s2 = remove1 B (tray s) @ [A]"
    and "slots s2 ! c = (slots s ! c)\<lparr>children := [B], filled := True, drag_over := False\<rparr>"
    and "\<And>j. j < length (slots s) \<Longrightarrow> j \<noteq> c \<Longrightarrow> slots s2 ! j = slots s ! j"
    and "located s2 = located s" and "wellFormed s2"
proof -
  from A have Ain: "A \<in> set (children (slots s ! c))" by simp
  note a = wellFormed_in_slot [OF wf c Ain]
  from parentElement_SlotD [OF a(2)] have Atray: "A \<notin> set (tray s)" by simp
  with B show "A \<noteq> B" by auto
  have t1: "tray s1 = tray s @ [A]"
    using Atray by (simp add: s1_def tray_movePieceToTray remove1_idem)
  have wf1: "wellFormed s1"
    unfolding s1_def by (rule wellFormed_movePieceToTray [OF wf a(1)])
  have l1: "length (slots s1) = length (slots s)" by (simp add: s1_def)
  have c1: "c < length (slots s1)" using c by (simp add: l1)
  have sl1: "slots s1 ! j = (if j = c
       then (slots s ! c)\<lparr>children := [], filled := False, drag_over := False\<rparr>
       else slots s ! j)" if "j < length (slots s)" for j
    using that a(2) A by (simp add: s1_def slots_movePieceToTray)
  have pB: "parentElement s1 B = Some TrayElement"
    using B by (simp add: parentElement_tray t1)
  show "tray s2 = remove1 B (tray s) @ [A]"
    using B by (simp add: s2_def tray_placePieceInSlot t1 remove1_append)
  show "slots s2 ! c = (slots s ! c)\<lparr>children := [B], filled := True, drag_over := False\<rparr>"
    using c c1 by (simp add: s2_def slots_placePieceInSlot pB sl1)
  show "slots s2 ! j = slots s ! j" if "j < length (slots s)" "j \<noteq> c" for j
    using that c1 by (simp add: s2_def slots_placePieceInSlot pB sl1 l1)
  have "set (children (slots s1 ! c)) \<subseteq> {B}" using c by (simp add: sl1)
  moreover from wellFormed_in_tray [OF wf B] have Bn: "B < length (pieces s1)"
    by (simp add: s1_def)
  ultimately show "wellFormed s2"
    unfolding s2_def using wf1 c1 by (intro wellFormed_placePieceInSlot)
  have "located s1 = located s"
    using wellFormed_located_mem [OF wf a(1)] by (simp add: s1_def located_movePieceToTray)
  moreover have "B \<in># located s1" using wf1 Bn by (rule wellFormed_located_mem)
  ultimately show "located s2 = located s"
    using c1 by (simp add: s2_def located_placePieceInSlot)
qed

lemma wellFormed_distinct_tray:
  assumes "wellFormed s"
  shows "distinct (tray s)"
proof -
  have "count (mset (tray s)) a \<le> 1" for a
  proof -
    have "count (mset (tray s)) a \<le> count (located s) a" by (simp add: located_def)
    also have "\<dots> \<le> 1" by (rule wellFormed_count_le [OF assms])
    finally show ?thesis .
  qed
  note le = this
  have "count (mset (tray s)) a = (if a \<in> set (tray s) then 1 else 0)" for a
  proof (cases "a \<in> set (tray s)")
    case True
    then have "0 < count (mset (tray s)) a" by (simp only: count_greater_zero_iff set_mset_mset)
    with le [of a] have "count (mset (tray s)) a = 1" by arith
    with True show ?thesis by simp
  next
    case False
    then show ?thesis by (simp add: count_eq_zero_iff)
  qed
  then show ?thesis by (simp only: distinct_count_atmost_1) simp
qed

lemma move_frame_aux:
  assumes wf: "wellFormed s" and X: "X < length (slots s)" and Y: "Y < length (slots s)"
    and XY: "X \<noteq> Y" and p: "children (slots s ! X) = [p]"
  defines "s1 \<equiv> (case querySelector (slots s ! Y) of
                    None \<Rightarrow> s
                  | Some occupyingPiece \<Rightarrow>
                      if occupyingPiece \<noteq> p then movePieceToTray occupyingPiece s else s)"
  defines "s2 \<equiv> placePieceInSlot p Y s1"
  shows "slots s2 ! X = (slots s ! X)\<lparr>children := [], filled := False\<rparr>"
    and "children (slots s2 ! Y) = [p]" and "filled (slots s2 ! Y)"
    and "slotId (slots s2 ! Y) = slotId (slots s ! Y)"
    and "\<And>j. j < length (slots s) \<Longrightarrow> j \<noteq> X \<Longrightarrow> j \<noteq> Y \<Longrightarrow> slots s2 ! j = slots s ! j"
    and "length (slots s2) = length (slots s)" and "wellFormed s2"
    and "p \<notin> set (tray s2)"
proof -
  from p have pin: "p \<in> set (children (slots s ! X))" by simp
  note px = wellFormed_in_slot [OF wf X pin]
  note e = evicted_wellFormed [OF wf Y, of p, folded s1_def]
  have l1: "length (slots s1) = length (slots s)" by (rule e(3))
  have other: "slots s1 ! j = slots s ! j" if "j < length (slots s)" "j \<noteq> Y" for j
  proof (cases "querySelector (slots s ! Y)")
    case None
    then show ?thesis by (simp add: s1_def)
  next
    case (Some q)
    note q = wellFormed_in_slot [OF wf Y querySelector_Some [OF Some]]
    from Some q(2) that show ?thesis by (simp add: s1_def slots_movePieceToTray)
  qed
  have sid: "slotId (slots s1 ! Y) = slotId (slots s ! Y)"
    using Y by (simp add: s1_def slots_movePieceToTray split: option.split)
  from other [OF X XY] p have p1: "p \<in> set (children (slots s1 ! X))"
    and c1: "children (slots s1 ! X) = [p]" by simp_all
  from X l1 have X1: "X < length (slots s1)" by simp
  from Y l1 have Y1: "Y < length (slots s1)" by simp
  note px1 = wellFormed_in_slot [OF e(1) X1 p1]
  have "p \<notin> set (children (slots s1 ! Y))"
  proof
    assume "p \<in> set (children (slots s1 ! Y))"
    from wellFormed_in_slot(2) [OF e(1) Y1 this] px1(2) XY show False by simp
  qed
  with e(2) have emptyY: "children (slots s1 ! Y) = []"
    by (cases "children (slots s1 ! Y)") auto
  show "slots s2 ! X = (slots s ! X)\<lparr>children := [], filled := False\<rparr>"
    using X1 XY px1(2) c1 other [OF X XY] by (simp add: s2_def slots_placePieceInSlot)
  show "children (slots s2 ! Y) = [p]" and "filled (slots s2 ! Y)"
    and "slotId (slots s2 ! Y) = slotId (slots s ! Y)"
    using Y1 XY px1(2) emptyY sid by (simp_all add: s2_def slots_placePieceInSlot)
  show "slots s2 ! j = slots s ! j" if "j < length (slots s)" "j \<noteq> X" "j \<noteq> Y" for j
    using that l1 px1(2) other [OF that(1,3)] by (simp add: s2_def slots_placePieceInSlot)
  show "length (slots s2) = length (slots s)" by (simp add: s2_def l1)
  show "wellFormed s2"
    unfolding s2_def using e(1) px1(1) Y1 e(2) by (rule wellFormed_placePieceInSlot)
  from parentElement_SlotD [OF px1(2)] show "p \<notin> set (tray s2)"
    by (simp add: s2_def tray_placePieceInSlot remove1_idem)
qed

section \<open>Reachable states\<close>

lemma reachable_wellFormed: "reachable ps \<Longrightarrow> ps = Some s \<Longrightarrow> wellFormed s"
proof (induction arbitrary: s rule: reachable.induct)
  case (start rnd panelStatus loaded)
  then show ?case by (intro initPuzzle_wellFormed)
next
  case (placePiece t event)
  from placePiece.IH [OF refl] placePiece.hyps(2) placePiece.prems show ?case
    by (rule wellFormed_handleDropOnSlot)
next
  case (returnToHolding puzzleState event)
  show ?case
  proof (cases puzzleState)
    case None
    with returnToHolding.prems show ?thesis by (simp add: handleDropOnTray_def)
  next
    case (Some t)
    from returnToHolding.IH [OF Some] returnToHolding.prems show ?thesis
      unfolding Some by (rule wellFormed_handleDropOnTray)
  qed
next
  case (shuffle puzzleState rnd)
  show ?case
  proof (cases puzzleState)
    case None
    with shuffle.prems show ?thesis by (simp add: shufflePieces_def)
  next
    case (Some t)
    from shuffle.IH [OF Some] shuffle.hyps(2) shuffle.prems show ?thesis
      unfolding Some by (rule wellFormed_shufflePieces)
  qed
qed

lemma count_sum_children:
  "count (sum_list (map (\<lambda>sl. mset (children sl)) sls)) p
     = sum_list (map (\<lambda>sl. count_list (children sl) p) sls)"
  by (induction sls) (simp_all add: count_mset)

lemma count_located:
  "count (located s) p
     = count_list (tray s) p + sum_list (map (\<lambda>sl. count_list (children sl) p) (slots s))"
  by (simp add: located_def count_sum_children count_mset)

lemma wellFormed_foreign:
  assumes "wellFormed s" and "length (pieces s) \<le> p"
  shows "p \<notin> set (tray s)" and "\<forall>sl\<in>set (slots s). p \<notin> set (children sl)"
proof -
  from wellFormed_count [OF assms(1), of p] assms(2) have "p \<notin># located s"
    by (simp add: count_eq_zero_iff)
  then show "p \<notin> set (tray s)" and "\<forall>sl\<in>set (slots s). p \<notin> set (children sl)"
    by (auto simp: located_def)
qed

text \<open>
  Claim C1. In every state reached from start-up by drops on slots, drops on the tray and
  shuffles, every piece is in exactly one place (it occurs once among the children of the
  tray and of all the slots together), no other node is in the tray or in a slot, and no
  slot has more than one child.
\<close>

theorem pieces_partitioned:
  "reachable puzzleState \<Longrightarrow> puzzleState = Some s \<Longrightarrow>
     (\<forall>p<length (pieces s).
        count_list (tray s) p
          + sum_list (map (\<lambda>sl. count_list (children sl) p) (slots s)) = 1) \<and>
     (\<forall>p. length (pieces s) \<le> p \<longrightarrow>
        p \<notin> set (tray s) \<and> (\<forall>sl\<in>set (slots s). p \<notin> set (children sl))) \<and>
     (\<forall>sl\<in>set (slots s). length (children sl) \<le> 1)"
proof -
  assume "reachable puzzleState" and "puzzleState = Some s"
  then have wf: "wellFormed s" by (rule reachable_wellFormed)
  have "count_list (tray s) p
          + sum_list (map (\<lambda>sl. count_list (children sl) p) (slots s)) = 1"
    if "p < length (pieces s)" for p
    using wellFormed_count [OF wf, of p] that by (simp add: count_located)
  moreover have "\<forall>sl\<in>set (slots s). length (children sl) \<le> 1"
    using wf by (simp add: wellFormed_def)
  ultimately show ?thesis using wellFormed_foreign [OF wf] by blast
qed

lemma String_js_digit: "n < 10 \<Longrightarrow> String_js n = [digit_char n]"
  by (simp add: String_js.simps)

lemmas store_defs = clearSlot_def movePieceToTray_def placePieceInSlot_def
  appendChild_def removeFromParent_def parentElement_def updSlot_def updPiece_def
  applyTrayStyles_def applySlotStyles_def querySelector_def setStatus_def checkCompletion_def

lemma computeBoardSize_exampleImage: "computeBoardSize exampleImage = 2"
  unfolding exampleImage_def by (rule computeBoardSize_low) (simp add: Math_round_boosted_100)

lemma initPuzzle_example:
  "initPuzzle (Some []) (Some exampleImage) (\<lambda>i. 0) = Some exampleStart"
  by (simp add: initPuzzle_def computeBoardSize_exampleImage shufflePieces_def store_defs
      hydratePieces_def sliceScene_def rebuildBoard_def rebuildTray_def Let_def
      String_js_digit digit_char_def BOARD_DIMENSION_def exampleStart_def examplePieces_def
      upt_rec [of 0] upt_rec [of 1] upt_rec [of 2] upt_rec [of 3] upt_rec [of 4]
      numeral_2_eq_2 numeral_3_eq_3)

lemma handleDropOnSlot_example:
  "handleDropOnSlot \<lparr>currentTarget = 2, dataTransfer = ''1''\<rparr> (Some exampleStart)
     = (Undefined, Some examplePlaced)"
  by (simp add: handleDropOnSlot_def store_defs Let_def exampleStart_def examplePlaced_def
      examplePieces_def msgPlaced_def msgCompleted_def msgSoClose_def)

lemma reachable_exampleStart: "reachable (Some exampleStart)"
  using reachable.start [of "\<lambda>i. 0" "Some []" "Some exampleImage"]
  by (simp add: initPuzzle_example)

lemma reachable_examplePlaced: "reachable (Some examplePlaced)"
  using reachable.placePiece [OF reachable_exampleStart,
      of "\<lparr>currentTarget = 2, dataTransfer = ''1''\<rparr>"]
  by (simp add: handleDropOnSlot_example) (simp add: exampleStart_def)

theorem pieces_partitioned_witness:
  "reachable (Some examplePlaced) \<and>
   count_list (tray examplePlaced) 0
     + sum_list (map (\<lambda>sl. count_list (children sl) 0) (slots examplePlaced)) = 1 \<and>
   count_list (tray examplePlaced) 3
     + sum_list (map (\<lambda>sl. count_list (children sl) 3) (slots examplePlaced)) = 1 \<and>
   4 \<notin> set (tray examplePlaced) \<and>
   length (children (slots examplePlaced ! 2)) \<le> 1"
proof -
  note r = reachable_examplePlaced
  from pieces_partitioned [OF r refl]
  have one: "\<forall>p<length (pieces examplePlaced).
        count_list (tray examplePlaced) p
          + sum_list (map (\<lambda>sl. count_list (children sl) p) (slots examplePlaced)) = 1"
    and foreign: "\<forall>p. length (pieces examplePlaced) \<le> p \<longrightarrow>
        p \<notin> set (tray examplePlaced) \<and>
        (\<forall>sl\<in>set (slots examplePlaced). p \<notin> set (children sl))"
    and single: "\<forall>sl\<in>set (slots examplePlaced). length (children sl) \<le> 1"
    by blast+
  have len: "length (pieces examplePlaced) = 4"
    by (simp add: examplePlaced_def examplePieces_def)
  have sl: "slots examplePlaced ! 2 \<in> set (slots examplePlaced)"
    by (simp add: examplePlaced_def)
  from one len have "count_list (tray examplePlaced) 0
     + sum_list (map (\<lambda>sl. count_list (children sl) 0) (slots examplePlaced)) = 1"
    and "count_list (tray examplePlaced) 3
     + sum_list (map (\<lambda>sl. count_list (children sl) 3) (slots examplePlaced)) = 1"
    by simp_all
  moreover from foreign len have "4 \<notin> set (tray examplePlaced)" by simp
  moreover from single sl have "length (children (slots examplePlaced ! 2)) \<le> 1" by blast
  ultimately show ?thesis using r by (intro conjI)
qed

section \<open>Dropping a piece on a slot\<close>

lemma wellFormed_examplePlaced: "wellFormed examplePlaced"
  by (rule reachable_wellFormed [OF reachable_examplePlaced refl])

text \<open>
  Claim C2. When piece \<open>A\<close> is the child of slot \<open>c\<close> and piece \<open>B\<close> is in the tray,
  dropping \<open>B\<close> on slot \<open>c\<close> first sends \<open>A\<close> to the tray and then puts \<open>B\<close> into
  the slot: afterwards \<open>B\<close> is the only child of slot \<open>c\<close>, \<open>A\<close> is the last child of the
  tray, the other slots are as before, and the pieces in the document are the same as
  before, each once.
\<close>

theorem placePiece_displaces_occupant:
  assumes "wellFormed s" and "c < length (slots s)" and "currentTarget e = c"
    and "children (slots s ! c) = [A]" and "B \<in> set (tray s)"
    and "findPiece (pieces s) (dataTransfer e) = Some B"
  shows "\<exists>s'. snd (handleDropOnSlot e (Some s)) = Some s' \<and>
     s' = checkCompletion (setStatus msgPlaced (updSlot c (\<lambda>sl. sl\<lparr>drag_over := False\<rparr>)
            (placePieceInSlot B c (movePieceToTray A s)))) \<and>
     A \<noteq> B \<and>
     children (slots s' ! c) = [B] \<and> filled (slots s' ! c) \<and>
     tray s' = remove1 B (tray s) @ [A] \<and> A \<in> set (tray s') \<and> B \<notin> set (tray s') \<and>
     (\<forall>j<length (slots s). j \<noteq> c \<longrightarrow> slots s' ! j = slots s ! j) \<and>
     length (slots s') = length (slots s) \<and>
     located s' = located s \<and> wellFormed s'"
proof -
  let ?s2 = "placePieceInSlot B c (movePieceToTray A s)"
  let ?s' = "checkCompletion (setStatus msgPlaced (updSlot c (\<lambda>sl. sl\<lparr>drag_over := False\<rparr>) ?s2))"
  note d = displacement_aux [OF assms(1,2,4,5)]
  from assms(4) have q: "querySelector (slots s ! c) = Some A" by (simp add: querySelector_def)
  have "snd (handleDropOnSlot e (Some s)) = Some ?s'"
    using d(1) q by (simp add: handleDropOnSlot_found [OF assms(6)] assms(3))
  moreover have l: "length (slots ?s2) = length (slots s)" by simp
  moreover have "children (slots ?s' ! c) = [B]" and "filled (slots ?s' ! c)"
    using assms(2) d(3) by (simp_all add: l)
  moreover have "tray ?s' = remove1 B (tray s) @ [A]" using d(2) by simp
  moreover have "B \<notin> set (remove1 B (tray s) @ [A])"
    using wellFormed_distinct_tray [OF assms(1)] d(1) by simp
  moreover have "slots ?s' ! j = slots s ! j" if "j < length (slots s)" "j \<noteq> c" for j
    using d(4) [OF that] that by simp
  moreover have "located ?s' = located s"
    using d(5) by (simp add: located_cong [of ?s' ?s2] map_children_update_same)
  moreover have "wellFormed ?s'"
    using d(6) by (simp add: wellFormed_updSlot_same)
  ultimately show ?thesis using d(1) by (intro exI [of _ ?s']) simp
qed

lemmas example_defs = exampleStart_def examplePlaced_def examplePieces_def exampleSolved_def
  exampleSwapped_def

theorem placePiece_displaces_occupant_witness:
  "wellFormed examplePlaced \<and> (2::nat) < length (slots examplePlaced) \<and>
   children (slots examplePlaced ! 2) = [0] \<and> 1 \<in> set (tray examplePlaced) \<and>
   findPiece (pieces examplePlaced) ''2'' = Some 1 \<and>
   (\<exists>s'. snd (handleDropOnSlot \<lparr>currentTarget = 2, dataTransfer = ''2''\<rparr>
               (Some examplePlaced)) = Some s' \<and>
         children (slots s' ! 2) = [1] \<and> filled (slots s' ! 2) \<and>
         tray s' = [2, 3, 0] \<and> located s' = located examplePlaced)"
proof -
  let ?e = "\<lparr>currentTarget = 2, dataTransfer = ''2''\<rparr>"
  have h: "(2::nat) < length (slots examplePlaced)" "currentTarget ?e = 2"
    "children (slots examplePlaced ! 2) = [0]" "1 \<in> set (tray examplePlaced)"
    "findPiece (pieces examplePlaced) (dataTransfer ?e) = Some 1"
    by (simp_all add: example_defs)
  from placePiece_displaces_occupant [OF wellFormed_examplePlaced h]
  obtain s' where "snd (handleDropOnSlot ?e (Some examplePlaced)) = Some s'"
    "children (slots s' ! 2) = [1]" "filled (slots s' ! 2)"
    "tray s' = remove1 1 (tray examplePlaced) @ [0]" "located s' = located examplePlaced"
    by blast
  moreover have "remove1 1 (tray examplePlaced) @ [0] = [2, 3, 0]"
    by (simp add: example_defs)
  ultimately have "\<exists>s'. snd (handleDropOnSlot ?e (Some examplePlaced)) = Some s' \<and>
         children (slots s' ! 2) = [1] \<and> filled (slots s' ! 2) \<and>
         tray s' = [2, 3, 0] \<and> located s' = located examplePlaced"
    by auto
  with wellFormed_examplePlaced h show ?thesis by simp
qed

text \<open>
  Claim C10. When piece \<open>p\<close> is the child of slot \<open>X\<close>, dropping it on another slot
  \<open>Y\<close> leaves slot \<open>X\<close> without a child and without the filled mark, makes \<open>p\<close> the only
  child of slot \<open>Y\<close>, which is marked filled, and changes no other slot.
\<close>

theorem placePiece_vacates_source:
  assumes "wellFormed s" and "X < length (slots s)" and "Y < length (slots s)" and "X \<noteq> Y"
    and "children (slots s ! X) = [p]" and "currentTarget e = Y"
    and "findPiece (pieces s) (dataTransfer e) = Some p"
  shows "\<exists>s'. snd (handleDropOnSlot e (Some s)) = Some s' \<and>
     children (slots s' ! X) = [] \<and> \<not> filled (slots s' ! X) \<and>
     children (slots s' ! Y) = [p] \<and> filled (slots s' ! Y) \<and>
     (\<forall>j<length (slots s). j \<noteq> X \<longrightarrow> j \<noteq> Y \<longrightarrow> slots s' ! j = slots s ! j) \<and>
     length (slots s') = length (slots s) \<and> p \<notin> set (tray s')"
proof -
  let ?s1 = "case querySelector (slots s ! Y) of
               None \<Rightarrow> s
             | Some occupyingPiece \<Rightarrow>
                 if occupyingPiece \<noteq> p then movePieceToTray occupyingPiece s else s"
  let ?s2 = "placePieceInSlot p Y ?s1"
  let ?s' = "checkCompletion (setStatus msgPlaced (updSlot Y (\<lambda>sl. sl\<lparr>drag_over := False\<rparr>) ?s2))"
  note m = move_frame_aux [OF assms(1-5)]
  have "snd (handleDropOnSlot e (Some s)) = Some ?s'"
    by (simp add: handleDropOnSlot_found [OF assms(7)] assms(6))
  moreover have "children (slots ?s' ! X) = []" and "\<not> filled (slots ?s' ! X)"
    using m(1,6) assms(2,3,4) by simp_all
  moreover have "children (slots ?s' ! Y) = [p]" and "filled (slots ?s' ! Y)"
    using m(2,3,6) assms(3) by simp_all
  moreover have "slots ?s' ! j = slots s ! j" if "j < length (slots s)" "j \<noteq> X" "j \<noteq> Y" for j
    using m(5) [OF that] that by simp
  moreover have "length (slots ?s') = length (slots s)" using m(6) by simp
  moreover have "p \<notin> set (tray ?s')" using m(8) by simp
  ultimately show ?thesis by (intro exI [of _ ?s']) simp
qed

theorem placePiece_vacates_source_witness:
  "wellFormed examplePlaced \<and> (2::nat) < length (slots examplePlaced) \<and>
   (0::nat) < length (slots examplePlaced) \<and> children (slots examplePlaced ! 2) = [0] \<and>
   findPiece (pieces examplePlaced) ''1'' = Some 0 \<and>
   (\<exists>s'. snd (handleDropOnSlot \<lparr>currentTarget = 0, dataTransfer = ''1''\<rparr>
               (Some examplePlaced)) = Some s' \<and>
         children (slots s' ! 2) = [] \<and> \<not> filled (slots s' ! 2) \<and>
         children (slots s' ! 0) = [0] \<and> filled (slots s' ! 0) \<and>
         slots s' ! 1 = slots examplePlaced ! 1 \<and> slots s' ! 3 = slots examplePlaced ! 3)"
proof -
  let ?e = "\<lparr>currentTarget = 0, dataTransfer = ''1''\<rparr>"
  have h: "(2::nat) < length (slots examplePlaced)" "(0::nat) < length (slots examplePlaced)"
    "(2::nat) \<noteq> 0" "children (slots examplePlaced ! 2) = [0]" "currentTarget ?e = 0"
    "findPiece (pieces examplePlaced) (dataTransfer ?e) = Some 0"
    by (simp_all add: example_defs)
  have l: "(1::nat) < length (slots examplePlaced)" "(3::nat) < length (slots examplePlaced)"
    by (simp_all add: example_defs)
  from placePiece_vacates_source [OF wellFormed_examplePlaced h]
  obtain s' where s': "snd (handleDropOnSlot ?e (Some examplePlaced)) = Some s'"
    "children (slots s' ! 2) = []" "\<not> filled (slots s' ! 2)"
    "children (slots s' ! 0) = [0]" "filled (slots s' ! 0)"
    and fr: "\<forall>j<length (slots examplePlaced). j \<noteq> 2 \<longrightarrow> j \<noteq> 0 \<longrightarrow> slots s' ! j = slots examplePlaced ! j"
    by blast
  from fr l have "slots s' ! 1 = slots examplePlaced ! 1" "slots s' ! 3 = slots examplePlaced ! 3"
    by simp_all
  with s' have "\<exists>s'. snd (handleDropOnSlot ?e (Some examplePlaced)) = Some s' \<and>
         children (slots s' ! 2) = [] \<and> \<not> filled (slots s' ! 2) \<and>
         children (slots s' ! 0) = [0] \<and> filled (slots s' ! 0) \<and>
         slots s' ! 1 = slots examplePlaced ! 1 \<and> slots s' ! 3 = slots examplePlaced ! 3"
    by auto
  with wellFormed_examplePlaced h show ?thesis by simp
qed

section \<open>Completion\<close>




section \<open>Slices and slots\<close>

lemma nth_concat_rows:
  "k < m * n \<Longrightarrow>
   concat (map (\<lambda>row. map (f row) [0..<n]) [0..<m]) ! k = f (k div n) (k mod n)"
proof (induction m)
  case 0
  then show ?case by simp
next
  case (Suc m)
  have len: "length (concat (map (\<lambda>row. map (f row) [0..<n]) [0..<m])) = m * n"
    by (induction m) simp_all
  show ?case
  proof (cases "k < m * n")
    case True
    with Suc.IH len show ?thesis by (simp add: nth_append)
  next
    case False
    with Suc.prems have n: "0 < n" and k: "m * n \<le> k" "k - m * n < n"
      by (auto simp: not_less intro: Nat.gr0I)
    from k have "k div n = m"
      by (metis Suc.prems div_nat_eqI mult.commute mult_Suc)
    moreover from k have "k mod n = k - m * n"
      by (metis \<open>k div n = m\<close> minus_mult_div_eq_mod mult.commute)
    ultimately show ?thesis using False k len by (simp add: nth_append)
  qed
qed

lemma length_concat_rows:
  "length (concat (map (\<lambda>row. map (f row) [0..<n]) [0..<m])) = m * n"
  by (induction m) simp_all

lemma length_sliceScene: "length (sliceScene bs psz) = bs * bs"
  by (simp add: sliceScene_def length_concat_rows)

lemma nth_sliceScene:
  "k < bs * bs \<Longrightarrow> sliceScene bs psz ! k =
     \<lparr>sx = real (k mod bs) * psz, sy = real (k div bs) * psz, sWidth = psz, sHeight = psz\<rparr>"
  unfolding sliceScene_def by (subst nth_concat_rows) simp_all

lemma nth_rebuildBoard:
  "k < bs * bs \<Longrightarrow> rebuildBoard bs ! k =
     \<lparr>slotId = String_js (k + 1), children = [], filled = False, drag_over = False\<rparr>"
  by (simp add: rebuildBoard_def)

lemma nth_hydratePieces:
  "k < length (pieces s) \<Longrightarrow> pieces (hydratePieces tx s) ! k =
     (pieces s ! k)\<lparr>backgroundImage := (if k < length tx then Some (tx ! k) else None),
        correctSlot := Some (String_js (k + 1)), style := TrayStyles\<rparr>"
  by (simp add: hydratePieces_def nth_enumerate_eq)

text \<open>
  Claim C4. For a board of side \<open>N\<close>, slicing gives \<open>N * N\<close> textures and the board gets
  \<open>N * N\<close> slots; once the \<open>N * N\<close> pieces of the tray are hydrated, the correct slot of
  the \<open>k\<close>-th piece is the id of the \<open>k\<close>-th slot (both are the text of \<open>k\<close>), and its
  texture is the \<open>k\<close>-th slice, the tile in row \<open>(k - 1) div N\<close> and column
  \<open>(k - 1) mod N\<close> of the scene.
\<close>

theorem slices_match_slots:
  assumes "pieces s = rebuildTray (N * N)"
  shows "length (sliceScene N psz) = N * N \<and> length (rebuildBoard N) = N * N \<and>
     length (pieces (hydratePieces (sliceScene N psz) s)) = N * N \<and>
     (\<forall>k. 1 \<le> k \<and> k \<le> N * N \<longrightarrow>
        correctSlot (pieces (hydratePieces (sliceScene N psz) s) ! (k - 1))
          = Some (slotId (rebuildBoard N ! (k - 1))) \<and>
        slotId (rebuildBoard N ! (k - 1)) = String_js k \<and>
        pieceId (pieces (hydratePieces (sliceScene N psz) s) ! (k - 1)) = String_js k \<and>
        backgroundImage (pieces (hydratePieces (sliceScene N psz) s) ! (k - 1))
          = Some (sliceScene N psz ! (k - 1)) \<and>
        sliceScene N psz ! (k - 1)
          = \<lparr>sx = real ((k - 1) mod N) * psz, sy = real ((k - 1) div N) * psz,
             sWidth = psz, sHeight = psz\<rparr>)"
proof -
  have "correctSlot (pieces (hydratePieces (sliceScene N psz) s) ! (k - 1))
          = Some (slotId (rebuildBoard N ! (k - 1))) \<and>
        slotId (rebuildBoard N ! (k - 1)) = String_js k \<and>
        pieceId (pieces (hydratePieces (sliceScene N psz) s) ! (k - 1)) = String_js k \<and>
        backgroundImage (pieces (hydratePieces (sliceScene N psz) s) ! (k - 1))
          = Some (sliceScene N psz ! (k - 1)) \<and>
        sliceScene N psz ! (k - 1)
          = \<lparr>sx = real ((k - 1) mod N) * psz, sy = real ((k - 1) div N) * psz,
             sWidth = psz, sHeight = psz\<rparr>"
    if "1 \<le> k" "k \<le> N * N" for k
  proof -
    from that have k: "k - 1 < N * N" "k - 1 + 1 = k" by simp_all
    with assms have "k - 1 < length (pieces s)" by simp
    from nth_hydratePieces [OF this, of "sliceScene N psz"] k assms
      nth_sliceScene [OF k(1), of psz] nth_rebuildBoard [OF k(1)]
    show ?thesis by (simp add: length_sliceScene rebuildTray_def)
  qed
  then show ?thesis using assms by (simp add: length_sliceScene)
qed

theorem slices_match_slots_witness:
  "pieces (exampleStart\<lparr>pieces := rebuildTray (2 * 2)\<rparr>) = rebuildTray (2 * 2) \<and>
   length (sliceScene 2 150) = 2 * 2 \<and> length (rebuildBoard 2) = 2 * 2 \<and>
   (1::nat) \<le> 3 \<and> (3::nat) \<le> 2 * 2 \<and>
   correctSlot (pieces (hydratePieces (sliceScene 2 150)
       (exampleStart\<lparr>pieces := rebuildTray (2 * 2)\<rparr>)) ! (3 - 1))
     = Some (slotId (rebuildBoard 2 ! (3 - 1))) \<and>
   slotId (rebuildBoard 2 ! (3 - 1)) = ''3'' \<and>
   sliceScene 2 150 ! (3 - 1) = \<lparr>sx = 0, sy = 150, sWidth = 150, sHeight = 150\<rparr>"
proof -
  let ?s = "exampleStart\<lparr>pieces := rebuildTray (2 * 2)\<rparr>"
  have p: "pieces ?s = rebuildTray (2 * 2)" by simp
  have k: "(1::nat) \<le> 3 \<and> (3::nat) \<le> 2 * 2" by simp
  from slices_match_slots [OF p, of 150]
  have len: "length (sliceScene 2 150) = 2 * 2" "length (rebuildBoard 2) = 2 * 2"
    and all: "\<forall>k. 1 \<le> k \<and> k \<le> 2 * 2 \<longrightarrow>
        correctSlot (pieces (hydratePieces (sliceScene 2 150) ?s) ! (k - 1))
          = Some (slotId (rebuildBoard 2 ! (k - 1))) \<and>
        slotId (rebuildBoard 2 ! (k - 1)) = String_js k \<and>
        pieceId (pieces (hydratePieces (sliceScene 2 150) ?s) ! (k - 1)) = String_js k \<and>
        backgroundImage (pieces (hydratePieces (sliceScene 2 150) ?s) ! (k - 1))
          = Some (sliceScene 2 150 ! (k - 1)) \<and>
        sliceScene 2 150 ! (k - 1)
          = \<lparr>sx = real ((k - 1) mod 2) * 150, sy = real ((k - 1) div 2) * 150,
             sWidth = 150, sHeight = 150\<rparr>"
    by blast+
  from all k have "correctSlot (pieces (hydratePieces (sliceScene 2 150) ?s) ! (3 - 1))
          = Some (slotId (rebuildBoard 2 ! (3 - 1)))"
    and "slotId (rebuildBoard 2 ! (3 - 1)) = String_js 3"
    and "sliceScene 2 150 ! (3 - 1)
          = \<lparr>sx = real ((3 - 1) mod 2) * 150, sy = real ((3 - 1) div 2) * 150,
             sWidth = 150, sHeight = 150\<rparr>"
    by blast+
  moreover have "String_js 3 = ''3''" by (simp add: String_js_digit digit_char_def)
  moreover have "real ((3 - 1) mod 2) * 150 = 0" "real ((3 - 1) div 2) * 150 = 150" by simp_all
  ultimately show ?thesis using p len k by simp
qed

section \<open>Shuffling\<close>

lemma map_update_same:
  assumes "\<And>x. g (f x) = g x"
  shows "map g (xs[k := f (xs ! k)]) = map g xs"
proof (cases "k < length xs")
  case True
  then show ?thesis by (simp add: map_update assms list_update_same_conv)
next
  case False
  then show ?thesis by (simp add: list_update_beyond)
qed

lemma pieceId_movePieceToTray [simp]:
  "map pieceId (pieces (movePieceToTray q s)) = map pieceId (pieces s)"
  and correctSlot_movePieceToTray [simp]:
  "map correctSlot (pieces (movePieceToTray q s)) = map correctSlot (pieces s)"
  by (simp_all add: pieces_movePieceToTray
      map_update_same [where f = "\<lambda>pc. pc\<lparr>style := TrayStyles, placedSlot := Some []\<rparr>"])

lemma pieceId_clearSlot [simp]:
  "map pieceId (pieces (clearSlot k s)) = map pieceId (pieces s)"
  and correctSlot_clearSlot [simp]:
  "map correctSlot (pieces (clearSlot k s)) = map correctSlot (pieces s)"
  by (simp_all add: clearSlot_def Let_def split: option.split)

lemma pieceId_fold_clearSlot [simp]:
  "map pieceId (pieces (fold clearSlot ks s)) = map pieceId (pieces s)"
  by (induction ks arbitrary: s) simp_all

lemma correctSlot_fold_clearSlot [simp]:
  "map correctSlot (pieces (fold clearSlot ks s)) = map correctSlot (pieces s)"
  by (induction ks arbitrary: s) simp_all

lemma pieceId_retray [simp]:
  "map pieceId (pieces (applyTrayStyles p (appendChild TrayElement p t))) = map pieceId (pieces t)"
  and correctSlot_retray [simp]:
  "map correctSlot (pieces (applyTrayStyles p (appendChild TrayElement p t)))
     = map correctSlot (pieces t)"
  by (simp_all add: applyTrayStyles_def
      map_update_same [where f = "\<lambda>pc. pc\<lparr>style := TrayStyles\<rparr>"])

lemma pieceId_fold_retray [simp]:
  "map pieceId (pieces (fold (\<lambda>p t. applyTrayStyles p (appendChild TrayElement p t)) xs t))
     = map pieceId (pieces t)"
  by (induction xs arbitrary: t) simp_all

lemma correctSlot_fold_retray [simp]:
  "map correctSlot (pieces (fold (\<lambda>p t. applyTrayStyles p (appendChild TrayElement p t)) xs t))
     = map correctSlot (pieces t)"
  by (induction xs arbitrary: t) simp_all

lemma shufflePieces_pieceIds:
  assumes "shufflePieces rnd (Some s) = Some s'"
  shows "map pieceId (pieces s') = map pieceId (pieces s)"
    and "map correctSlot (pieces s') = map correctSlot (pieces s)"
  using assms by (auto simp: shufflePieces_def Let_def)

lemma ids_of_all_pieces:
  assumes "mset xs = mset [0..<length ps]"
  shows "mset (map (\<lambda>p. f (ps ! p)) xs) = mset (map f ps)"
proof -
  have "mset (map (\<lambda>p. f (ps ! p)) xs) = image_mset (\<lambda>p. f (ps ! p)) (mset xs)" by simp
  also have "\<dots> = mset (map (\<lambda>p. f (ps ! p)) [0..<length ps])" by (simp add: assms)
  also have "map (\<lambda>p. f (ps ! p)) [0..<length ps] = map f (map ((!) ps) [0..<length ps])"
    by simp
  also have "\<dots> = map f ps" by (simp only: map_nth)
  finally show ?thesis .
qed

lemma fisherYates_half: "fisherYates (\<lambda>i. 1 / 2) 3 [0..<4] = [0, 3, 1, 2]"
  by code_simp

text \<open>
  Claim C6. After a shuffle of a well-formed store no slot has a child (and none is marked
  filled): all pieces are in the tray. The tray holds every piece once, so the multiset of
  the piece ids in the tray is the multiset of the piece ids of the model, which the
  shuffle leaves as they were; only the order of the tray changes, to the order the
  Fisher-Yates loop produces from the random numbers.
\<close>

theorem shuffle_moves_all_to_holding:
  assumes "wellFormed s" and "\<forall>i. 0 \<le> rnd i \<and> rnd i < 1"
  shows "\<exists>s'. shufflePieces rnd (Some s) = Some s' \<and>
     (\<forall>sl\<in>set (slots s'). children sl = [] \<and> \<not> filled sl) \<and>
     length (slots s') = length (slots s) \<and>
     mset (tray s') = mset [0..<length (pieces s)] \<and>
     mset (map (\<lambda>p. pieceId (pieces s' ! p)) (tray s')) = mset (map pieceId (pieces s)) \<and>
     map pieceId (pieces s') = map pieceId (pieces s) \<and>
     tray s' = fisherYates rnd (length (pieces s) - 1) [0..<length (pieces s)] \<and>
     wellFormed s'"
proof -
  from shufflePieces_result [OF assms]
  obtain s' where s': "shufflePieces rnd (Some s) = Some s'"
    and t: "tray s' = fisherYates rnd (length (pieces s) - 1) [0..<length (pieces s)]"
    and m: "mset (tray s') = mset [0..<length (pieces s)]"
    and e: "\<forall>sl\<in>set (slots s'). children sl = [] \<and> \<not> filled sl \<and> \<not> drag_over sl"
    and i: "map slotId (slots s') = map slotId (slots s)"
    and l: "length (pieces s') = length (pieces s)"
    by blast
  note ids = shufflePieces_pieceIds [OF s']
  from m l have "mset (map (\<lambda>p. pieceId (pieces s' ! p)) (tray s')) = mset (map pieceId (pieces s'))"
    by (intro ids_of_all_pieces) simp
  with ids have "mset (map (\<lambda>p. pieceId (pieces s' ! p)) (tray s')) = mset (map pieceId (pieces s))"
    by simp
  moreover from i have "length (slots s') = length (slots s)" by (rule map_eq_imp_length_eq)
  moreover have "wellFormed s'" by (rule wellFormed_shufflePieces [OF assms s'])
  ultimately show ?thesis using s' t m e ids by (intro exI [of _ s']) simp
qed

theorem shuffle_moves_all_to_holding_witness:
  "wellFormed examplePlaced \<and>
   (\<exists>s'. shufflePieces (\<lambda>i. 1 / 2) (Some examplePlaced) = Some s' \<and>
      children (slots s' ! 2) = [] \<and> \<not> filled (slots s' ! 2) \<and>
      tray s' = [0, 3, 1, 2] \<and>
      map (\<lambda>p. pieceId (pieces s' ! p)) (tray s') = [''1'', ''4'', ''2'', ''3''])"
proof -
  have r: "\<forall>i::nat. (0::real) \<le> 1 / 2 \<and> (1::real) / 2 < 1" by simp
  from shuffle_moves_all_to_holding [OF wellFormed_examplePlaced r]
  obtain s' where s': "shufflePieces (\<lambda>i. 1 / 2) (Some examplePlaced) = Some s'"
    and e: "\<forall>sl\<in>set (slots s'). children sl = [] \<and> \<not> filled sl"
    and l: "length (slots s') = length (slots examplePlaced)"
    and ids: "map pieceId (pieces s') = map pieceId (pieces examplePlaced)"
    and t: "tray s' = fisherYates (\<lambda>i. 1 / 2) (length (pieces examplePlaced) - 1)
                        [0..<length (pieces examplePlaced)]"
    by blast
  from l have "slots s' ! 2 \<in> set (slots s')" by (simp add: example_defs)
  with e have c: "children (slots s' ! 2) = []" "\<not> filled (slots s' ! 2)" by blast+
  have "length (pieces examplePlaced) = 4" by (simp add: example_defs)
  with t have t': "tray s' = [0, 3, 1, 2]"
    by (simp add: fisherYates_half)
  have "map (\<lambda>p. pieceId (pieces s' ! p)) [0, 3, 1, 2]
      = map (\<lambda>p. map pieceId (pieces s') ! p) [0, 3, 1, 2]"
    using ids [THEN arg_cong, of length] by (simp add: example_defs)
  also have "\<dots> = [''1'', ''4'', ''2'', ''3'']"
    by (simp add: ids) (simp add: example_defs)
  finally have "map (\<lambda>p. pieceId (pieces s' ! p)) (tray s') = [''1'', ''4'', ''2'', ''3'']"
    by (simp add: t')
  with s' c t'
  have "\<exists>s'. shufflePieces (\<lambda>i. 1 / 2) (Some examplePlaced) = Some s' \<and>
      children (slots s' ! 2) = [] \<and> \<not> filled (slots s' ! 2) \<and>
      tray s' = [0, 3, 1, 2] \<and>
      map (\<lambda>p. pieceId (pieces s' ! p)) (tray s') = [''1'', ''4'', ''2'', ''3'']"
    by (intro exI [of _ s'] conjI)
  with wellFormed_examplePlaced show ?thesis by (rule conjI)
qed

section \<open>Unknown piece ids\<close>

lemma examplePlaced_eq:
  "examplePlaced =
     \<lparr>tray = [1, 2, 3],
      slots = [\<lparr>slotId = ''1'', children = [], filled = False, drag_over = False\<rparr>,
               \<lparr>slotId = ''2'', children = [], filled = False, drag_over = False\<rparr>,
               \<lparr>slotId = ''3'', children = [0], filled = True, drag_over = False\<rparr>,
               \<lparr>slotId = ''4'', children = [], filled = False, drag_over = False\<rparr>],
      pieces = examplePieces[0 := (examplePieces ! 0)\<lparr>placedSlot := Some ''3'',
                                                        style := SlotStyles\<rparr>],
      boardSize = 2, pieceSize = 150, trayPieceSize = 80,
      statusNode = Some msgPlaced\<rparr>"
  by (simp add: examplePlaced_def exampleStart_def)

lemma place_again:
  "placePieceInSlot 0 2 examplePlaced = examplePlaced"
  unfolding examplePlaced_eq
  by (simp add: placePieceInSlot_def appendChild_def removeFromParent_def parentElement_def
      updSlot_def updPiece_def applySlotStyles_def Let_def examplePieces_def)

lemma redrop:
  "handleDropOnSlot \<lparr>currentTarget = 2, dataTransfer = ''1''\<rparr> (Some examplePlaced)
     = (Undefined, Some examplePlaced)"
proof -
  have f: "findPiece (pieces examplePlaced) (dataTransfer \<lparr>currentTarget = 2, dataTransfer = ''1''\<rparr>) = Some 0"
    by (simp add: examplePlaced_eq examplePieces_def)
  have q: "querySelector (slots examplePlaced ! 2) = Some 0"
    by (simp add: examplePlaced_eq querySelector_def)
  have u: "updSlot 2 (\<lambda>sl. sl\<lparr>drag_over := False\<rparr>) examplePlaced = examplePlaced"
    by (simp add: examplePlaced_eq updSlot_def)
  have s: "setStatus msgPlaced examplePlaced = examplePlaced"
    by (simp add: examplePlaced_eq setStatus_def)
  have c: "checkCompletion examplePlaced = examplePlaced"
    by (simp add: examplePlaced_eq checkCompletion_def querySelector_def Let_def)
  show ?thesis
    by (simp add: handleDropOnSlot_found [OF f] q place_again u s c)
qed

text \<open>
  Claim C7, as amended. A drop that carries a piece id no piece of the model has changes
  nothing: the state after the handler is the state before it, status line included. The
  handler returns \<^verbatim>\<open>undefined\<close>, as every call of it does: no value returned tells the
  caller that the drop was rejected.
\<close>

theorem unknown_piece_id_is_silent_noop:
  assumes "dataTransfer e \<notin> pieceId ` set (pieces s)"
  shows "handleDropOnSlot e (Some s) = (Undefined, Some s) \<and>
         handleDropOnTray e (Some s) = (Undefined, Some s) \<and>
         (\<forall>e' puzzleState. fst (handleDropOnSlot e' puzzleState) = Undefined \<and>
                            fst (handleDropOnTray e' puzzleState) = Undefined)"
proof -
  from assms have "findPiece (pieces s) (dataTransfer e) = None"
    by (simp add: findPiece_None)
  then have "handleDropOnSlot e (Some s) = (Undefined, Some s)"
    and "handleDropOnTray e (Some s) = (Undefined, Some s)"
    by (simp_all add: handleDropOnSlot_def handleDropOnTray_def)
  moreover have "fst (handleDropOnSlot e' ps) = Undefined"
    and "fst (handleDropOnTray e' ps) = Undefined" for e' ps
    by (cases "fst (handleDropOnSlot e' ps)", simp) (cases "fst (handleDropOnTray e' ps)", simp)
  ultimately show ?thesis by simp
qed

theorem unknown_piece_id_is_silent_noop_witness:
  "''99'' \<notin> pieceId ` set (pieces examplePlaced) \<and>
   handleDropOnSlot \<lparr>currentTarget = 2, dataTransfer = ''99''\<rparr> (Some examplePlaced)
     = (Undefined, Some examplePlaced) \<and>
   handleDropOnTray \<lparr>currentTarget = 2, dataTransfer = ''99''\<rparr> (Some examplePlaced)
     = (Undefined, Some examplePlaced)"
proof -
  let ?e = "\<lparr>currentTarget = 2, dataTransfer = ''99''\<rparr>"
  have a: "''99'' \<notin> pieceId ` set (pieces examplePlaced)"
    by (simp add: example_defs)
  then have "dataTransfer ?e \<notin> pieceId ` set (pieces examplePlaced)" by simp
  from unknown_piece_id_is_silent_noop [OF this] a show ?thesis by simp
qed

text \<open>
  The claim as written fails: in \<open>examplePlaced\<close>, where piece 1 lies on cell 3, the drop
  of the unknown id 99 on cell 3 and the accepted drop of piece 1 on cell 3 return the same
  value and leave the same state.
\<close>

theorem unknown_piece_id_no_signal_counterexample:
  "''99'' \<notin> pieceId ` set (pieces examplePlaced) \<and>
   findPiece (pieces examplePlaced) ''1'' = Some 0 \<and>
   handleDropOnSlot \<lparr>currentTarget = 2, dataTransfer = ''99''\<rparr> (Some examplePlaced)
     = handleDropOnSlot \<lparr>currentTarget = 2, dataTransfer = ''1''\<rparr> (Some examplePlaced) \<and>
   fst (handleDropOnSlot \<lparr>currentTarget = 2, dataTransfer = ''99''\<rparr> (Some examplePlaced))
     = fst (handleDropOnSlot \<lparr>currentTarget = 2, dataTransfer = ''1''\<rparr> (Some exampleStart))"
proof -
  have a: "''99'' \<notin> pieceId ` set (pieces examplePlaced)"
    by (simp add: examplePlaced_eq examplePieces_def)
  then have "findPiece (pieces examplePlaced) ''99'' = None" by (simp add: findPiece_None)
  then have n: "handleDropOnSlot \<lparr>currentTarget = 2, dataTransfer = ''99''\<rparr> (Some examplePlaced)
      = (Undefined, Some examplePlaced)"
    by (simp add: handleDropOnSlot_def)
  have f: "findPiece (pieces examplePlaced) ''1'' = Some 0"
    by (simp add: examplePlaced_eq examplePieces_def)
  from a f n show ?thesis by (simp add: redrop handleDropOnSlot_example)
qed

section \<open>Returning a piece to the tray\<close>

lemma movePieceToTray_held:
  assumes "p \<in> set (tray s)"
  shows "movePieceToTray p s =
     s\<lparr>tray := remove1 p (tray s) @ [p],
       pieces := (pieces s)[p := (pieces s ! p)\<lparr>style := TrayStyles, placedSlot := Some []\<rparr>]\<rparr>"
proof (cases "p < length (pieces s)")
  case True
  with assms show ?thesis
    by (simp add: movePieceToTray_def parentElement_tray appendChild_def removeFromParent_def
        applyTrayStyles_def updPiece_def Let_def)
next
  case False
  with assms show ?thesis
    by (simp add: movePieceToTray_def parentElement_tray appendChild_def removeFromParent_def
        applyTrayStyles_def updPiece_def Let_def list_update_beyond)
qed

lemma findPiece_cong:
  "map pieceId ps = map pieceId ps' \<Longrightarrow> findPiece ps i = findPiece ps' i"
proof (induction ps arbitrary: ps')
  case Nil
  then show ?case by simp
next
  case (Cons a ps)
  then obtain b ps'' where "ps' = b # ps''" by (cases ps') auto
  with Cons show ?case by auto
qed

lemma parentElement_cong:
  "tray s' = tray s \<Longrightarrow> slots s' = slots s \<Longrightarrow> parentElement s' q = parentElement s q"
  by (simp add: parentElement_def)

lemma parentElement_set_cong:
  "set (tray s') = set (tray s) \<Longrightarrow> slots s' = slots s
     \<Longrightarrow> parentElement s' q = parentElement s q"
  by (simp add: parentElement_def)

lemma verdict_cong:
  "slots t = slots s \<Longrightarrow> pieces t = pieces s \<Longrightarrow> verdict m t = verdict m s"
  by (simp add: verdict_def cong: option.case_cong)

lemma checkCompletion_setStatus:
  "checkCompletion (setStatus m t) = t\<lparr>statusNode := map_option (\<lambda>_. verdict m t) (statusNode t)\<rparr>"
  by (cases "statusNode t")
     (simp_all add: checkCompletion_def setStatus_def verdict_def Let_def cong: option.case_cong)

lemma update_idem:
  assumes "\<And>x. f (f x) = f x"
  shows "xs[p := f (xs[p := f (xs ! p)] ! p)] = xs[p := f (xs ! p)]"
  by (cases "p < length xs") (simp_all add: assms list_update_beyond)

lemma returnToHolding_twice:
  assumes "distinct (tray s)" and "p \<in> set (tray s)"
    and s1: "s1 = checkCompletion (setStatus msgReturned (movePieceToTray p s))"
  shows "checkCompletion (setStatus msgReturned (movePieceToTray p s1)) = s1"
proof -
  let ?T = "remove1 p (tray s) @ [p]"
  let ?f = "\<lambda>pc. pc\<lparr>style := TrayStyles, placedSlot := Some []\<rparr>"
  let ?P = "(pieces s)[p := ?f (pieces s ! p)]"
  let ?M = "s\<lparr>tray := ?T, pieces := ?P\<rparr>"
  have M: "movePieceToTray p s = ?M" by (rule movePieceToTray_held [OF assms(2)])
  have Hs: "s1 = ?M\<lparr>statusNode := map_option (\<lambda>_. verdict msgReturned ?M) (statusNode s)\<rparr>"
    by (simp add: s1 M checkCompletion_setStatus)
  have T: "remove1 p ?T @ [p] = ?T"
    using assms(1,2) by (simp add: remove1_append remove1_idem)
  have P: "(pieces s)[p := ?f (?P ! p)] = ?P" by (rule update_idem) simp
  have pin: "p \<in> set (tray s1)" by (simp add: Hs)
  have m1: "movePieceToTray p s1 = s1"
    unfolding movePieceToTray_held [OF pin] by (simp add: Hs T P)
  have "verdict msgReturned s1 = verdict msgReturned ?M"
    by (rule verdict_cong) (simp_all add: Hs)
  then have "s1\<lparr>statusNode := map_option (\<lambda>_. verdict msgReturned s1) (statusNode s1)\<rparr> = s1"
    by (simp add: Hs option.map_comp comp_def)
  then show ?thesis by (simp add: m1 checkCompletion_setStatus)
qed

lemma handleDropOnTray_found:
  assumes "findPiece (pieces s) (dataTransfer e) = Some p"
  shows "handleDropOnTray e (Some s)
     = (Undefined, Some (checkCompletion (setStatus msgReturned (movePieceToTray p s))))"
  using assms by (simp add: handleDropOnTray_def Let_def)

text \<open>
  Claim C8, as amended. Dropping on the tray a piece that is already in the tray leaves
  every slot as it is and every piece where it is (the tray keeps the same pieces); what
  changes is the order of the tray, where the piece becomes the last child (and the status
  line, which then reads "Piece returned to the tray."). Doing it a second time changes
  nothing more.
\<close>

theorem returnToHolding_held_piece:
  assumes "wellFormed s" and "findPiece (pieces s) (dataTransfer e) = Some p"
    and "p \<in> set (tray s)"
  shows "\<exists>s'. snd (handleDropOnTray e (Some s)) = Some s' \<and>
     slots s' = slots s \<and>
     tray s' = remove1 p (tray s) @ [p] \<and> mset (tray s') = mset (tray s) \<and>
     (\<forall>q. parentElement s' q = parentElement s q) \<and>
     map pieceId (pieces s') = map pieceId (pieces s) \<and>
     map correctSlot (pieces s') = map correctSlot (pieces s) \<and>
     snd (handleDropOnTray e (Some s')) = Some s'"
proof -
  let ?s' = "checkCompletion (setStatus msgReturned (movePieceToTray p s))"
  note d = wellFormed_distinct_tray [OF assms(1)]
  have h: "snd (handleDropOnTray e (Some s)) = Some ?s'"
    by (simp add: handleDropOnTray_found [OF assms(2)])
  have sl: "slots ?s' = slots s"
    by (simp add: movePieceToTray_held [OF assms(3)])
  have tr: "tray ?s' = remove1 p (tray s) @ [p]"
    by (simp add: tray_movePieceToTray)
  have ms: "mset (tray ?s') = mset (tray s)"
    using assms(3) by (simp add: tray_movePieceToTray)
  from ms have "set (tray ?s') = set (tray s)" by (rule mset_eq_setD)
  then have pe: "parentElement ?s' q = parentElement s q" for q
    using sl by (rule parentElement_set_cong)
  have ids: "map pieceId (pieces ?s') = map pieceId (pieces s)"
    "map correctSlot (pieces ?s') = map correctSlot (pieces s)"
    by simp_all
  have "findPiece (pieces ?s') (dataTransfer e) = Some p"
    using assms(2) by (simp only: findPiece_cong [OF ids(1)])
  then have "snd (handleDropOnTray e (Some ?s')) = Some ?s'"
    by (simp add: handleDropOnTray_found returnToHolding_twice [OF d assms(3) refl])
  with h sl tr ms pe ids show ?thesis by (intro exI [of _ ?s']) simp
qed

lemma wellFormed_exampleStart: "wellFormed exampleStart"
  by (rule reachable_wellFormed [OF reachable_exampleStart refl])

theorem returnToHolding_held_piece_witness:
  "wellFormed exampleStart \<and> findPiece (pieces exampleStart) ''2'' = Some 1 \<and>
   1 \<in> set (tray exampleStart) \<and>
   (\<exists>s'. snd (handleDropOnTray \<lparr>currentTarget = 0, dataTransfer = ''2''\<rparr>
               (Some exampleStart)) = Some s' \<and>
         slots s' = slots exampleStart \<and> tray s' = [2, 3, 0, 1] \<and>
         parentElement s' 1 = parentElement exampleStart 1 \<and>
         snd (handleDropOnTray \<lparr>currentTarget = 0, dataTransfer = ''2''\<rparr> (Some s')) = Some s')"
proof -
  let ?e = "\<lparr>currentTarget = 0, dataTransfer = ''2''\<rparr>"
  have f: "findPiece (pieces exampleStart) (dataTransfer ?e) = Some 1"
    and i: "1 \<in> set (tray exampleStart)"
    by (simp_all add: exampleStart_def examplePieces_def)
  from returnToHolding_held_piece [OF wellFormed_exampleStart f i]
  obtain s' where s': "snd (handleDropOnTray ?e (Some exampleStart)) = Some s'"
    "slots s' = slots exampleStart" "tray s' = remove1 1 (tray exampleStart) @ [1]"
    "\<forall>q. parentElement s' q = parentElement exampleStart q"
    "snd (handleDropOnTray ?e (Some s')) = Some s'"
    by blast
  have "remove1 1 (tray exampleStart) @ [1] = [2, 3, 0, 1]"
    by (simp add: exampleStart_def)
  with s' have "\<exists>s'. snd (handleDropOnTray ?e (Some exampleStart)) = Some s' \<and>
         slots s' = slots exampleStart \<and> tray s' = [2, 3, 0, 1] \<and>
         parentElement s' 1 = parentElement exampleStart 1 \<and>
         snd (handleDropOnTray ?e (Some s')) = Some s'"
    by (intro exI [of _ s']) simp
  with wellFormed_exampleStart f i show ?thesis by simp
qed

text \<open>
  The claim as written fails: right after start-up piece 2 is the first child of the tray,
  and dropping it on the tray makes it the last: the state has changed.
\<close>

theorem returnToHolding_held_piece_counterexample:
  "findPiece (pieces exampleStart) ''2'' = Some 1 \<and>
   parentElement exampleStart 1 = Some TrayElement \<and>
   tray exampleStart = [1, 2, 3, 0] \<and>
   map_option tray (snd (handleDropOnTray \<lparr>currentTarget = 0, dataTransfer = ''2''\<rparr>
       (Some exampleStart))) = Some [2, 3, 0, 1] \<and>
   map_option statusNode (snd (handleDropOnTray \<lparr>currentTarget = 0, dataTransfer = ''2''\<rparr>
       (Some exampleStart))) = Some (Some msgReturned) \<and>
   snd (handleDropOnTray \<lparr>currentTarget = 0, dataTransfer = ''2''\<rparr> (Some exampleStart))
     \<noteq> Some exampleStart"
proof -
  let ?e = "\<lparr>currentTarget = 0, dataTransfer = ''2''\<rparr>"
  let ?s' = "checkCompletion (setStatus msgReturned (movePieceToTray 1 exampleStart))"
  have f: "findPiece (pieces exampleStart) (dataTransfer ?e) = Some 1"
    by (simp add: exampleStart_def examplePieces_def)
  have p: "parentElement exampleStart 1 = Some TrayElement"
    by (rule parentElement_tray) (simp add: exampleStart_def)
  have t: "tray exampleStart = [1, 2, 3, 0]" by (simp add: exampleStart_def)
  have h: "snd (handleDropOnTray ?e (Some exampleStart)) = Some ?s'"
    by (simp add: handleDropOnTray_found [OF f])
  have t': "tray ?s' = [2, 3, 0, 1]" by (simp add: tray_movePieceToTray t)
  have "1 \<in> set (tray exampleStart)" by (simp add: t)
  note M = movePieceToTray_held [OF this]
  have st: "statusNode ?s' = Some msgReturned"
    unfolding M by (simp add: checkCompletion_setStatus verdict_def exampleStart_def
        querySelector_def)
  have "?s' \<noteq> exampleStart"
  proof
    assume "?s' = exampleStart"
    then have "tray ?s' = tray exampleStart" by (rule arg_cong)
    then show False by (simp only: t t') simp
  qed
  with f p t h t' st show ?thesis by simp
qed

end
